theory Spec2Isabelle
  imports Main "HOL-Library.Sublist" "HOL-Library.AList"
begin

section \<open>JavaScript strings\<close>

text \<open>
  A JavaScript string is modelled as a \<^typ>\<open>string\<close>, one \<^typ>\<open>char\<close> per code unit
  (so code units above 255 are outside the model).  The functions of this section are the
  built-ins the services call, written out from ECMAScript's definition of them.
\<close>

abbreviation dq :: char where "dq \<equiv> CHR 0x22"
abbreviation nl :: char where "nl \<equiv> CHR 0x0A"

text \<open>\<^verbatim>\<open>String.prototype.trim\<close>: white space and line terminators among the code units
  the model has (TAB, LF, VT, FF, CR, SP, NBSP).\<close>

definition isWhiteSpace :: "char \<Rightarrow> bool" where
  "isWhiteSpace c = (c = CHR 0x09 \<or> c = CHR 0x0A \<or> c = CHR 0x0B \<or> c = CHR 0x0C
                     \<or> c = CHR 0x0D \<or> c = CHR 0x20 \<or> c = CHR 0xA0)"

definition trim :: "string \<Rightarrow> string" where
  "trim s = rev (dropWhile isWhiteSpace (rev (dropWhile isWhiteSpace s)))"

text \<open>\<^verbatim>\<open>String.prototype.toLowerCase\<close> on the ASCII letters.\<close>

definition toLowerChar :: "char \<Rightarrow> char" where
  "toLowerChar c =
     (case map_of (zip ''ABCDEFGHIJKLMNOPQRSTUVWXYZ'' ''abcdefghijklmnopqrstuvwxyz'') c of
        Some d \<Rightarrow> d
      | None \<Rightarrow> c)"

definition toLowerCase :: "string \<Rightarrow> string" where
  "toLowerCase s = map toLowerChar s"

text \<open>\<^verbatim>\<open>String(n)\<close> and \<^verbatim>\<open>${n}\<close> for a counter \<open>n\<close>: its decimal numeral.\<close>

definition digitChar :: "nat \<Rightarrow> char" where
  "digitChar d = (''0123456789'' ! d)"

fun showNat :: "nat \<Rightarrow> string" where
  "showNat n = (if n < 10 then [digitChar n] else showNat (n div 10) @ [digitChar (n mod 10)])"

declare showNat.simps [simp del]

text \<open>The regular expression class \<^verbatim>\<open>\d\<close>.\<close>

definition isDigit :: "char \<Rightarrow> bool" where
  "isDigit c = (c \<in> set ''0123456789'')"

text \<open>Reading a numeral back; used only to show that \<open>showNat\<close> is injective.\<close>

definition digitVal :: "char \<Rightarrow> nat" where
  "digitVal c = length (takeWhile (\<lambda>d. d \<noteq> c) ''0123456789'')"

definition readNat :: "string \<Rightarrow> nat" where
  "readNat s = foldl (\<lambda>a c. 10 * a + digitVal c) 0 s"

section \<open>The DOM and its serialisation\<close>

text \<open>
  A parsed node: an element with its name as the parser stores it, its attributes in
  order and its children; a text node; a comment; a document type.  The services read
  \<open>element.tagName.toLowerCase()\<close>, which is \<open>toLowerCase\<close> of the stored name for the HTML
  elements (whose \<open>tagName\<close> is the name in upper case) and for the foreign ones alike.
\<close>

datatype node =
    Element string "(string \<times> string) list" "node list"
  | Text string
  | Comment string
  | Doctype string

text \<open>
  \<open>outerHTML\<close>, \<open>dom.serialize()\<close> and \<open>$.html(el)\<close> follow the HTML fragment serialisation
  algorithm: text is escaped unless its parent is a raw text element, attribute values
  are escaped and double-quoted, a void element has no end tag and no content.
\<close>

definition escapeText :: "string \<Rightarrow> string" where
  "escapeText s =
     concat (map (\<lambda>c. if c = CHR ''&'' then ''&amp;'' else if c = CHR ''<'' then ''&lt;''
                       else if c = CHR ''>'' then ''&gt;''
                       else if c = CHR 0xA0 then ''&nbsp;'' else [c]) s)"

definition escapeAttr :: "string \<Rightarrow> string" where
  "escapeAttr s =
     concat (map (\<lambda>c. if c = CHR ''&'' then ''&amp;'' else if c = dq then ''&quot;''
                       else if c = CHR 0xA0 then ''&nbsp;'' else [c]) s)"

definition serializeAttrs :: "(string \<times> string) list \<Rightarrow> string" where
  "serializeAttrs attrs =
     concat (map (\<lambda>(k, v). '' '' @ k @ ''='' @ [dq] @ escapeAttr v @ [dq]) attrs)"

definition voidElements :: "string list" where
  "voidElements = [''area'', ''base'', ''basefont'', ''bgsound'', ''br'', ''col'', ''embed'',
     ''frame'', ''hr'', ''img'', ''input'', ''keygen'', ''link'', ''meta'', ''param'',
     ''source'', ''track'', ''wbr'']"

definition rawTextElements :: "string list" where
  "rawTextElements = [''style'', ''script'', ''xmp'', ''iframe'', ''noembed'', ''noframes'',
     ''plaintext'', ''noscript'']"

fun serializeNode :: "bool \<Rightarrow> node \<Rightarrow> string" where
  "serializeNode raw (Text t) = (if raw then t else escapeText t)"
| "serializeNode raw (Comment c) = ''<!--'' @ c @ ''-->''"
| "serializeNode raw (Doctype d) = ''<!DOCTYPE '' @ d @ ''>''"
| "serializeNode raw (Element name attrs cs) =
     ''<'' @ name @ serializeAttrs attrs @ ''>'' @
     (if name \<in> set voidElements then []
      else concat (map (serializeNode (name \<in> set rawTextElements)) cs) @ ''</'' @ name @ ''>'')"

definition serializeChildren :: "bool \<Rightarrow> node list \<Rightarrow> string" where
  "serializeChildren raw cs = concat (map (serializeNode raw) cs)"

definition outerHTML :: "node \<Rightarrow> string" where
  "outerHTML n = serializeNode False n"

section \<open>WidgetExtractor: \<open>WidgetExtractionService.extractWidgets\<close>\<close>

definition WIDGET_ELEMENTS :: "string list" where
  "WIDGET_ELEMENTS = [''h1'', ''h2'', ''h3'', ''h4'', ''h5'', ''h6'', ''p'', ''svg'', ''img'',
     ''image'', ''video'', ''span'', ''button'', ''a'', ''text'', ''wow-image'', ''wix-video'',
     ''wow-svg'', ''wow-icon'', ''wow-canvas'', ''main'']"

text \<open>The template literal \<^verbatim>\<open>`{{widget-${widgetCounter}}}`\<close>.\<close>

definition widgetKey :: "nat \<Rightarrow> string" where
  "widgetKey n = ''{{widget-'' @ showNat n @ ''}}''"

text \<open>
  \<open>isInsideSection\<close> walks \<open>parentElement\<close> upwards.  The walk is over the names of the
  element's ancestors, nearest first: an element that \<open>processElement\<close> reaches is still
  attached below the elements it was reached through.
\<close>

fun isInsideSection :: "string list \<Rightarrow> bool" where
  "isInsideSection [] = False"
| "isInsideSection (parent # ps) =
     (if toLowerCase parent = ''section'' then True else isInsideSection ps)"

text \<open>
  The two variables of the closure: \<open>widgets\<close>, an object whose string keys keep their
  insertion order (\<open>widgets[k] = v\<close> is \<open>AList.update\<close>), and \<open>widgetCounter\<close>.
\<close>

record wstate =
  widgets :: "(string \<times> string) list"
  widgetCounter :: nat

text \<open>
  \<open>processElement\<close> returns the node that stands in the element's place afterwards
  (\<open>replaceChild\<close> puts the placeholder text node there) and the new state.
  \<open>processChildren\<close> is \<open>Array.from(element.childNodes).forEach(processElement)\<close>.
\<close>

fun processElement :: "string list \<Rightarrow> node \<Rightarrow> wstate \<Rightarrow> node \<times> wstate"
  and processChildren :: "string list \<Rightarrow> node list \<Rightarrow> wstate \<Rightarrow> node list \<times> wstate" where
  "processElement anc (Element name attrs cs) st =
     (if toLowerCase name \<in> set WIDGET_ELEMENTS then
        (if toLowerCase name = ''main'' \<and> \<not> isInsideSection anc then
           (case processChildren (name # anc) cs st of
              (cs', st') \<Rightarrow> (Element name attrs cs', st'))
         else
           (Text (widgetKey (widgetCounter st)),
            st\<lparr>widgets := AList.update (widgetKey (widgetCounter st))
                              (outerHTML (Element name attrs cs)) (widgets st),
               widgetCounter := Suc (widgetCounter st)\<rparr>))
      else
        (case processChildren (name # anc) cs st of
           (cs', st') \<Rightarrow> (Element name attrs cs', st')))"
| "processElement anc (Text t) st = (Text t, st)"
| "processElement anc (Comment c) st = (Comment c, st)"
| "processElement anc (Doctype d) st = (Doctype d, st)"
| "processChildren anc [] st = ([], st)"
| "processChildren anc (c # cs) st =
     (case processElement anc c st of
        (c', st') \<Rightarrow>
          (case processChildren anc cs st' of
             (cs', st'') \<Rightarrow> (c' # cs', st'')))"

text \<open>
  The parsed document, as \<open>extractWidgets\<close> uses it: the children of \<open>document.body\<close>,
  and the serialisation of what stands before them (doctype, \<^verbatim>\<open><html>\<close>, the head, the
  body's start tag) and after them, which the function never touches.  The body's
  ancestors are the \<open>body\<close> and \<open>html\<close> elements.
\<close>

record document =
  docBefore :: string
  bodyChildren :: "node list"
  docAfter :: string

record widgetExtractionResult =
  resultWidgets :: "(string \<times> string) list"
  modifiedHtml :: string
  totalWidgets :: nat

definition serializeDocument :: "document \<Rightarrow> string" where
  "serializeDocument d = docBefore d @ serializeChildren False (bodyChildren d) @ docAfter d"

definition extractWidgets :: "document \<Rightarrow> widgetExtractionResult" where
  "extractWidgets d =
     (case processChildren [''body'', ''html''] (bodyChildren d)
             \<lparr>widgets = [], widgetCounter = 1\<rparr> of
        (cs', st) \<Rightarrow>
          \<lparr>resultWidgets = widgets st,
           modifiedHtml = serializeDocument (d\<lparr>bodyChildren := cs'\<rparr>),
           totalWidgets = length (widgets st)\<rparr>)"




section \<open>TreeSerializer: \<open>HtmlToJsonService.elementToJson\<close>\<close>

text \<open>
  A cheerio node as \<open>elementToJson\<close> reads it: the function dispatches on \<open>element.type\<close>,
  which is \<open>'text'\<close>, \<open>'comment'\<close>, \<open>'tag'\<close> or something else (root, directive, script,
  style, cdata), and for a tag reads \<open>name\<close>, \<open>attribs\<close> and \<open>children\<close>.
\<close>

datatype cnode =
    TextNode string
  | CommentNode string
  | TagNode string "(string \<times> string) list" "cnode list"
  | OtherNode

text \<open>The value returned: a string, or a \<open>DOMNode\<close> object
  \<open>{tagName, attributes, children, textContent?}\<close>.\<close>

datatype jnode =
    JString string
  | JNode (tagName: string) (attributes: "(string \<times> string) list")
          (children: "jnode list") (textContent: "string option")

text \<open>
  \<open>this.nodeCount\<close> is threaded through as a natural number.  \<open>convertChildren\<close> is the
  \<open>forEach\<close> over \<open>element.children\<close>, with \<open>node.children\<close> as the accumulator: a string
  child is pushed when its trimmed value is non-empty, an object child always.
\<close>

fun elementToJson :: "cnode \<Rightarrow> nat \<Rightarrow> jnode \<times> nat"
  and convertChildren :: "cnode list \<Rightarrow> jnode list \<Rightarrow> nat \<Rightarrow> jnode list \<times> nat" where
  "elementToJson (TextNode t) n = (JString (trim t), Suc n)"
| "elementToJson (CommentNode c) n = (JString [], Suc n)"
| "elementToJson (TagNode name attribs cs) n =
     (case convertChildren cs [] (Suc n) of
        (kids, n') \<Rightarrow>
          (case kids of
             [JString s] \<Rightarrow> (JNode name attribs [] (Some s), n')
           | _ \<Rightarrow> (JNode name attribs kids None, n')))"
| "elementToJson OtherNode n = (JString [], Suc n)"
| "convertChildren [] acc n = (acc, n)"
| "convertChildren (c # cs) acc n =
     (case elementToJson c n of
        (JString s, n') \<Rightarrow>
          convertChildren cs (if trim s \<noteq> [] then acc @ [JString s] else acc) n'
      | (childNode, n') \<Rightarrow> convertChildren cs (acc @ [childNode]) n')"

text \<open>The document of the concrete scenario, \<^verbatim>\<open><body><p>Hello</p></body>\<close>, as parsed.\<close>

definition helloBody :: cnode where
  "helloBody = TagNode ''body'' [] [TagNode ''p'' [] [TextNode ''Hello'']]"

section \<open>Reconstructor: \<open>ReconstructionService.reconstructHtml\<close>\<close>

text \<open>\<^verbatim>\<open>String.prototype.includes\<close>.\<close>

definition jsIncludes :: "string \<Rightarrow> string \<Rightarrow> bool" where
  "jsIncludes s k = sublist k s"

text \<open>
  ECMAScript's \<open>GetSubstitution\<close> for a match with no capture groups: in the replacement
  text \<^verbatim>\<open>$$\<close> stands for a dollar sign, \<^verbatim>\<open>$&\<close> for the matched text, \<^verbatim>\<open>$`\<close> for the
  text before the match and \<^verbatim>\<open>$'\<close> for the text after it; any other \<^verbatim>\<open>$\<close> is literal.
  Both \<open>replace\<close> calls of \<open>reconstructHtml\<close> pass the replacement as a string, so both
  go through it.  The arguments are the matched text, the text before the match, the text
  after it, and the replacement.
\<close>

fun getSubstitution :: "string \<Rightarrow> string \<Rightarrow> string \<Rightarrow> string \<Rightarrow> string" where
  "getSubstitution m b a [] = []"
| "getSubstitution m b a [c] = [c]"
| "getSubstitution m b a (c # d # r) =
     (if c = CHR ''$'' \<and> d = CHR ''$'' then CHR ''$'' # getSubstitution m b a r
      else if c = CHR ''$'' \<and> d = CHR ''&'' then m @ getSubstitution m b a r
      else if c = CHR ''$'' \<and> d = CHR 0x60 then b @ getSubstitution m b a r
      else if c = CHR ''$'' \<and> d = CHR 0x27 then a @ getSubstitution m b a r
      else c # getSubstitution m b a (d # r))"

text \<open>\<open>splitAtFirst k pre s\<close> finds the first occurrence of \<open>k\<close> in \<open>s\<close> and returns the
  text before it (after \<open>pre\<close>) and the text after it.\<close>

fun splitAtFirst :: "string \<Rightarrow> string \<Rightarrow> string \<Rightarrow> (string \<times> string) option" where
  "splitAtFirst k pre s =
     (if prefix k s then Some (pre, drop (length k) s)
      else (case s of [] \<Rightarrow> None | c # cs \<Rightarrow> splitAtFirst k (pre @ [c]) cs))"

declare splitAtFirst.simps [simp del]

text \<open>\<open>s.replace(k, r)\<close> with a string pattern \<open>k\<close>: the first occurrence only.\<close>

definition stringReplace :: "string \<Rightarrow> string \<Rightarrow> string \<Rightarrow> string" where
  "stringReplace s k r =
     (case splitAtFirst k [] s of
        None \<Rightarrow> s
      | Some (b, a) \<Rightarrow> b @ getSubstitution k b a r @ a)"

text \<open>
  The widget pass builds \<^verbatim>\<open>new RegExp(placeholder.replace(/[{}]/g, '\\$&'), 'g')\<close>.  For a
  placeholder whose only regular-expression characters are braces, which holds of every
  key \<open>extractWidgets\<close> saves, the expression matches the placeholder literally; that is
  the case modelled.  \<open>countMatches k s\<close> is \<open>(s.match(regex) || []).length\<close> and
  \<open>regexReplaceAll k r pre s\<close> is \<open>s.replace(regex, r)\<close>, where \<open>pre\<close> is the text already
  scanned: matches are taken left to right and do not overlap, and the empty expression
  matches once at every index.
\<close>

function countMatches :: "string \<Rightarrow> string \<Rightarrow> nat" where
  "countMatches k s =
     (if k \<noteq> [] \<and> prefix k s then Suc (countMatches k (drop (length k) s))
      else (case s of
              [] \<Rightarrow> (if k = [] then 1 else 0)
            | c # cs \<Rightarrow> (if k = [] then 1 else 0) + countMatches k cs))"
  by pat_completeness auto
termination
  by (relation "measure (\<lambda>(k, s). length s)") (auto simp: prefix_def)

declare countMatches.simps [simp del]

function regexReplaceAll :: "string \<Rightarrow> string \<Rightarrow> string \<Rightarrow> string \<Rightarrow> string" where
  "regexReplaceAll k r pre s =
     (if k \<noteq> [] \<and> prefix k s then
        getSubstitution k pre (drop (length k) s) r
          @ regexReplaceAll k r (pre @ k) (drop (length k) s)
      else (case s of
              [] \<Rightarrow> (if k = [] then getSubstitution [] pre [] r else [])
            | c # cs \<Rightarrow>
                (if k = [] then getSubstitution [] pre (c # cs) r else [])
                  @ c # regexReplaceAll k r (pre @ [c]) cs))"
  by pat_completeness auto
termination
  by (relation "measure (\<lambda>(k, r, pre, s). length s)") (auto simp: prefix_def)

declare regexReplaceAll.simps [simp del]

text \<open>
  \<^verbatim>\<open>optimized_html.match(/wig-id="(\{\{wigoh-id-\d+\}\})"/)\<close>: \<open>matchHere\<close> tries the
  expression at the start of the text (the digits are taken greedily; giving one back
  cannot help, since a digit is not a brace), \<open>wigIdMatch\<close> tries every index from the
  left and returns the first group of the first match.
\<close>

definition matchHere :: "string \<Rightarrow> string option" where
  "matchHere s =
     (if prefix (''wig-id='' @ [dq] @ ''{{wigoh-id-'') s then
        (let r = drop 19 s; ds = takeWhile isDigit r in
         if ds \<noteq> [] \<and> prefix (''}}'' @ [dq]) (dropWhile isDigit r)
         then Some (''{{wigoh-id-'' @ ds @ ''}}'')
         else None)
      else None)"

fun wigIdMatch :: "string \<Rightarrow> string option" where
  "wigIdMatch [] = None"
| "wigIdMatch (c # cs) =
     (case matchHere (c # cs) of Some t \<Rightarrow> Some t | None \<Rightarrow> wigIdMatch cs)"

text \<open>The variables of \<open>reconstructHtml\<close> that its two loops update.\<close>

record rstate =
  reconstructedHtml :: string
  componentsReplaced :: nat
  widgetsReplaced :: nat

text \<open>
  One turn of the component loop.  The argument is \<open>fullComponent.optimized_html\<close> as
  \<open>getOptimizedComponentById\<close> returned it: \<open>None\<close> when the row or the column is missing.
  An empty string is falsy and skipped as well.
\<close>

definition componentStep :: "rstate \<Rightarrow> string option \<Rightarrow> rstate" where
  "componentStep st c =
     (case c of
        None \<Rightarrow> st
      | Some optimized_html \<Rightarrow>
          if optimized_html = [] then st
          else (case wigIdMatch optimized_html of
                  None \<Rightarrow> st
                | Some wigIdPlaceholder \<Rightarrow>
                    if jsIncludes (reconstructedHtml st) wigIdPlaceholder then
                      st\<lparr>reconstructedHtml :=
                            stringReplace (reconstructedHtml st) wigIdPlaceholder optimized_html,
                         componentsReplaced := Suc (componentsReplaced st)\<rparr>
                    else st))"

text \<open>One turn of the widget loop, for the row \<open>(widget_key, widget_html)\<close>.\<close>

definition widgetStep :: "rstate \<Rightarrow> string \<times> string \<Rightarrow> rstate" where
  "widgetStep st w =
     (case w of
        (placeholder, widget_html) \<Rightarrow>
          if jsIncludes (reconstructedHtml st) placeholder then
            st\<lparr>reconstructedHtml :=
                  regexReplaceAll placeholder widget_html [] (reconstructedHtml st),
               widgetsReplaced :=
                  widgetsReplaced st + countMatches placeholder (reconstructedHtml st)\<rparr>
          else st)"

datatype error = NoPlaceholderHtml | TypeError

record reconstructionResult =
  resultHtml :: string
  totalComponents :: nat
  totalWidgetsReplaced :: nat

text \<open>
  \<open>reconstructHtml\<close> reads its three inputs from the database: the latest template
  (\<open>None\<close> when there is none, which throws), the optimized components in the order the
  query lists them, and the widget rows in the order of their ids.
\<close>

definition reconstructHtml ::
  "string option \<Rightarrow> string option list \<Rightarrow> (string \<times> string) list
     \<Rightarrow> error + reconstructionResult" where
  "reconstructHtml placeholderData optimizedComponents widgetRows =
     (case placeholderData of
        None \<Rightarrow> Inl NoPlaceholderHtml
      | Some html_content \<Rightarrow>
          (let st1 = foldl componentStep
                       \<lparr>reconstructedHtml = html_content, componentsReplaced = 0,
                        widgetsReplaced = 0\<rparr> optimizedComponents;
               st2 = foldl widgetStep st1 widgetRows
           in Inr \<lparr>resultHtml = reconstructedHtml st2,
                   totalComponents = componentsReplaced st2,
                   totalWidgetsReplaced = widgetsReplaced st2\<rparr>))"

text \<open>The two kinds of token: \<open>{{wigoh-id-\<close>digits\<open>}}\<close> and \<open>{{widget-\<close>digits\<open>}}\<close>.\<close>

definition isWigohToken :: "string \<Rightarrow> bool" where
  "isWigohToken t =
     (prefix ''{{wigoh-id-'' t \<and> takeWhile isDigit (drop 11 t) \<noteq> []
      \<and> dropWhile isDigit (drop 11 t) = ''}}'')"

definition isWidgetToken :: "string \<Rightarrow> bool" where
  "isWidgetToken t =
     (prefix ''{{widget-'' t \<and> takeWhile isDigit (drop 9 t) \<noteq> []
      \<and> dropWhile isDigit (drop 9 t) = ''}}'')"

text \<open>What the two have in common: two opening braces, a non-empty body without braces,
  two closing braces.\<close>

definition braceToken :: "string \<Rightarrow> bool" where
  "braceToken t =
     (\<exists>b. t = ''{{'' @ b @ ''}}'' \<and> b \<noteq> [] \<and> CHR ''{'' \<notin> set b \<and> CHR ''}'' \<notin> set b)"

section \<open>ComponentExtractor: \<open>ComponentExtractionService.extractComponents\<close>\<close>

text \<open>
  The cheerio document is the list of the root's children.  A selector is a predicate on
  an element's name and attributes; \<open>selectAll\<close> lists the matching elements in document
  order, as \<open>$(selector)\<close> does.
\<close>

fun selectAll :: "(string \<Rightarrow> (string \<times> string) list \<Rightarrow> bool) \<Rightarrow> node \<Rightarrow> node list" where
  "selectAll p (Element name attrs cs) =
     (if p name attrs then [Element name attrs cs] else []) @ concat (map (selectAll p) cs)"
| "selectAll p (Text t) = []"
| "selectAll p (Comment c) = []"
| "selectAll p (Doctype d) = []"

text \<open>\<open>$(selector).attr(k, v)\<close>: the attribute is set on every matching element.\<close>

fun setAttrWhere ::
  "(string \<Rightarrow> (string \<times> string) list \<Rightarrow> bool) \<Rightarrow> string \<Rightarrow> string \<Rightarrow> node \<Rightarrow> node" where
  "setAttrWhere p k v (Element name attrs cs) =
     Element name (if p name attrs then AList.update k v attrs else attrs)
       (map (setAttrWhere p k v) cs)"
| "setAttrWhere p k v (Text t) = Text t"
| "setAttrWhere p k v (Comment c) = Comment c"
| "setAttrWhere p k v (Doctype d) = Doctype d"

text \<open>
  \<open>$(selector).replaceWith(new)\<close>: every matching element is replaced in its parent.  A
  matching element inside another one leaves the document with it, so the replacement
  does not descend into an element it replaces.
\<close>

fun replaceWhere ::
  "(string \<Rightarrow> (string \<times> string) list \<Rightarrow> bool) \<Rightarrow> node \<Rightarrow> node \<Rightarrow> node" where
  "replaceWhere p new (Element name attrs cs) =
     (if p name attrs then new else Element name attrs (map (replaceWhere p new) cs))"
| "replaceWhere p new (Text t) = Text t"
| "replaceWhere p new (Comment c) = Comment c"
| "replaceWhere p new (Doctype d) = Doctype d"

text \<open>\<open>$(selector).remove()\<close>.\<close>

fun removeWhere ::
  "(string \<Rightarrow> (string \<times> string) list \<Rightarrow> bool) \<Rightarrow> node list \<Rightarrow> node list" where
  "removeWhere p [] = []"
| "removeWhere p (Element name attrs cs # ns) =
     (if p name attrs then removeWhere p ns
      else Element name attrs (removeWhere p cs) # removeWhere p ns)"
| "removeWhere p (n # ns) = n # removeWhere p ns"

text \<open>The selector \<open>#id\<close>.\<close>

definition hasId :: "string \<Rightarrow> string \<Rightarrow> (string \<times> string) list \<Rightarrow> bool" where
  "hasId i name attrs = (map_of attrs ''id'' = Some i)"

text \<open>\<^verbatim>\<open>`wigoh-id-${String(placeholderCounter).padStart(3, '0')}`\<close>.\<close>

definition padStart3 :: "string \<Rightarrow> string" where
  "padStart3 s = replicate (3 - length s) (CHR ''0'') @ s"

definition placeholderIdOf :: "nat \<Rightarrow> string" where
  "placeholderIdOf n = ''wigoh-id-'' @ padStart3 (showNat n)"

datatype ctype = TargetId | Section

text \<open>
  An \<open>ExtractedComponent\<close>, without \<open>childrenCount\<close> and \<open>dbId\<close>, which nothing here
  reads, and the row \<open>databaseService.saveComponent\<close> is given.
\<close>

record component =
  placeholderId :: string
  originalId :: string
  ctype :: ctype
  found :: bool
  componentHtml :: string

record savedComponent =
  placeholder_id :: string
  original_id :: string
  saved_type :: ctype
  html_content :: string

definition notFoundHtml :: "string \<Rightarrow> string \<Rightarrow> string" where
  \<open>notFoundHtml targetId pid =
     ''<div style="padding: 20px; border: 2px dashed red; background: #fff3f3;">'' @ [nl] @
     ''  <h2 style="color: red;">Component Not Found</h2>'' @ [nl] @
     ''  <p><strong>Original ID:</strong> '' @ targetId @ ''</p>'' @ [nl] @
     ''  <p><strong>Placeholder ID:</strong> '' @ pid @ ''</p>'' @ [nl] @
     ''  <p>This component was not found in the source HTML.</p>'' @ [nl] @
     ''</div>''\<close>

definition createCleanComponentHTML :: "string \<Rightarrow> string \<Rightarrow> string \<Rightarrow> string" where
  \<open>createCleanComponentHTML html elementId pid =
     ''<!DOCTYPE html>'' @ [nl] @
     ''<html lang="en">'' @ [nl] @
     ''<head>'' @ [nl] @
     ''    <meta charset="UTF-8">'' @ [nl] @
     ''    <meta name="viewport" content="width=device-width, initial-scale=1.0">'' @ [nl] @
     ''    <title>Component: '' @ elementId @ ''</title>'' @ [nl] @
     ''</head>'' @ [nl] @
     ''<body>'' @ [nl] @
     ''    <!-- Placeholder ID: '' @ pid @ '' -->'' @ [nl] @
     ''    <!-- Original ID: '' @ elementId @ '' -->'' @ [nl] @
     html @ [nl] @
     ''</body>'' @ [nl] @
     ''</html>''\<close>

definition createNotFoundComponentHTML :: "string \<Rightarrow> string \<Rightarrow> string" where
  \<open>createNotFoundComponentHTML elementId pid =
     ''<!DOCTYPE html>'' @ [nl] @
     ''<html lang="en">'' @ [nl] @
     ''<head>'' @ [nl] @
     ''    <meta charset="UTF-8">'' @ [nl] @
     ''    <meta name="viewport" content="width=device-width, initial-scale=1.0">'' @ [nl] @
     ''    <title>Component Not Found: '' @ elementId @ ''</title>'' @ [nl] @
     ''</head>'' @ [nl] @
     ''<body>'' @ [nl] @
     ''    <!-- Placeholder ID: '' @ pid @ '' -->'' @ [nl] @
     ''    <!-- Original ID: '' @ elementId @ '' -->'' @ [nl] @
     ''    <!-- STATUS: NOT FOUND -->'' @ [nl] @
     ''    <div style="padding: 20px; border: 2px dashed red; background: #fff3f3;">'' @ [nl] @
     ''        <h2 style="color: red;">Component Not Found</h2>'' @ [nl] @
     ''        <p><strong>Original ID:</strong> '' @ elementId @ ''</p>'' @ [nl] @
     ''        <p><strong>Placeholder ID:</strong> '' @ pid @ ''</p>'' @ [nl] @
     ''        <p>This component was not found in the source HTML.</p>'' @ [nl] @
     ''    </div>'' @ [nl] @
     ''</body>'' @ [nl] @
     ''</html>''\<close>

definition cleanHtmlStructure :: "string \<Rightarrow> string" where
  \<open>cleanHtmlStructure bodyContent =
     ''<!DOCTYPE html>'' @ [nl] @
     ''<html lang="en">'' @ [nl] @
     ''<head>'' @ [nl] @
     ''    <meta charset="UTF-8">'' @ [nl] @
     ''    <meta name="viewport" content="width=device-width, initial-scale=1.0">'' @ [nl] @
     ''    <title>Extracted Content with Placeholders</title>'' @ [nl] @
     ''</head>'' @ [nl] @
     ''<body>'' @ [nl] @
     bodyContent @ [nl] @
     ''</body>'' @ [nl] @
     ''</html>''\<close>

text \<open>The variables of \<open>extractComponents\<close>: the document \<open>$\<close>, the counter, the list
  returned, the rows saved, and the set of section ids already processed.\<close>

record cstate =
  doc :: "node list"
  placeholderCounter :: nat
  extractedComponents :: "component list"
  savedComponents :: "savedComponent list"
  processedSections :: "string list"

definition targetIds :: "string list" where
  "targetIds = [''pinnedTopLeft'', ''pinnedTopRight'', ''pinnedBottomLeft'']"

text \<open>One turn of the loop over \<open>targetIds\<close>.\<close>

definition processTarget :: "cstate \<Rightarrow> string \<Rightarrow> cstate" where
  "processTarget st targetId =
     (let pid = placeholderIdOf (placeholderCounter st);
          st1 = st\<lparr>placeholderCounter := Suc (placeholderCounter st)\<rparr>
      in if concat (map (selectAll (hasId targetId)) (doc st)) \<noteq> [] then
           (let token = ''{{'' @ pid @ ''}}'';
                doc1 = map (setAttrWhere (hasId targetId) ''wig-id'' token) (doc st);
                html = concat (map outerHTML (concat (map (selectAll (hasId targetId)) doc1)))
            in st1\<lparr>doc := map (replaceWhere (hasId targetId) (Text token)) doc1,
                   savedComponents := savedComponents st @
                     [\<lparr>placeholder_id = pid, original_id = targetId, saved_type = TargetId,
                       html_content = html\<rparr>],
                   extractedComponents := extractedComponents st @
                     [\<lparr>placeholderId = pid, originalId = targetId, ctype = TargetId,
                       found = True,
                       componentHtml = createCleanComponentHTML html targetId pid\<rparr>]\<rparr>)
         else
           st1\<lparr>savedComponents := savedComponents st @
                  [\<lparr>placeholder_id = pid, original_id = targetId, saved_type = TargetId,
                    html_content = notFoundHtml targetId pid\<rparr>],
               extractedComponents := extractedComponents st @
                  [\<lparr>placeholderId = pid, originalId = targetId, ctype = TargetId,
                    found = False,
                    componentHtml = createNotFoundComponentHTML targetId pid\<rparr>]\<rparr>)"

text \<open>
  \<open>$('section').toArray()\<close>: the section elements in document order, each with the path
  to it (child indices from the root), and whether it has an ancestor section, which is
  what \<open>$section.parents('section').length > 0\<close> finds when the loop reaches it: the loop
  only ever detaches top-level sections, so the ancestors of a section inside another are
  where they were, and the section itself is as it was.
\<close>

fun sectionsIn :: "nat list \<Rightarrow> bool \<Rightarrow> node \<Rightarrow> (nat list \<times> bool \<times> node) list"
  and sectionsInList ::
    "nat list \<Rightarrow> nat \<Rightarrow> bool \<Rightarrow> node list \<Rightarrow> (nat list \<times> bool \<times> node) list" where
  "sectionsIn path inSec (Element name attrs cs) =
     (if name = ''section'' then [(path, inSec, Element name attrs cs)] else [])
       @ sectionsInList path 0 (inSec \<or> name = ''section'') cs"
| "sectionsIn path inSec (Text t) = []"
| "sectionsIn path inSec (Comment c) = []"
| "sectionsIn path inSec (Doctype d) = []"
| "sectionsInList path i inSec [] = []"
| "sectionsInList path i inSec (c # cs) =
     sectionsIn (path @ [i]) inSec c @ sectionsInList path (Suc i) inSec cs"

text \<open>The node at a path is replaced; paths that do not lead to a node change nothing.\<close>

fun replaceAt :: "nat list \<Rightarrow> node \<Rightarrow> node list \<Rightarrow> node list" where
  "replaceAt [] new ns = ns"
| "replaceAt [i] new ns = (if i < length ns then ns[i := new] else ns)"
| "replaceAt (i # j # p) new ns =
     (if i < length ns then
        (case ns ! i of
           Element name attrs cs \<Rightarrow> ns[i := Element name attrs (replaceAt (j # p) new cs)]
         | _ \<Rightarrow> ns)
      else ns)"

text \<open>\<^verbatim>\<open>$section.attr('id') || `section_${index + 1}`\<close>.\<close>

definition sectionIdOf :: "nat \<Rightarrow> (string \<times> string) list \<Rightarrow> string" where
  "sectionIdOf index attrs =
     (case map_of attrs ''id'' of
        Some v \<Rightarrow> if v \<noteq> [] then v else ''section_'' @ showNat (index + 1)
      | None \<Rightarrow> ''section_'' @ showNat (index + 1))"

text \<open>One turn of the loop over the sections: the index, and the entry of
  \<open>sectionElements\<close>.\<close>

definition sectionStep :: "cstate \<Rightarrow> nat \<times> nat list \<times> bool \<times> node \<Rightarrow> cstate" where
  "sectionStep st e =
     (case e of
        (index, path, isNested, Element name attrs cs) \<Rightarrow>
          (let sectionId = sectionIdOf index attrs in
           if isNested then st
           else if sectionId \<in> set (processedSections st) then st
           else
             (let pid = placeholderIdOf (placeholderCounter st);
                  token = ''{{'' @ pid @ ''}}'';
                  sectionHtml = outerHTML (Element name (AList.update ''wig-id'' token attrs) cs)
              in st\<lparr>processedSections := sectionId # processedSections st,
                    placeholderCounter := Suc (placeholderCounter st),
                    doc := replaceAt path (Text token) (doc st),
                    savedComponents := savedComponents st @
                      [\<lparr>placeholder_id = pid, original_id = sectionId, saved_type = Section,
                        html_content = sectionHtml\<rparr>],
                    extractedComponents := extractedComponents st @
                      [\<lparr>placeholderId = pid, originalId = sectionId, ctype = Section,
                        found = True,
                        componentHtml = createCleanComponentHTML sectionHtml sectionId pid\<rparr>]\<rparr>))
      | _ \<Rightarrow> st)"

text \<open>
  The clean-up: the eight \<open>remove()\<close> calls in their order, then the inner markup of the
  first \<open>body\<close> element, or of the whole document when there is none, in a fresh shell.
  The value of \<open>rel\<close> is compared without regard to case, as selectors do in HTML.
\<close>

definition removals :: "(string \<Rightarrow> (string \<times> string) list \<Rightarrow> bool) list" where
  "removals =
     [\<lambda>name attrs. name = ''script'',
      \<lambda>name attrs. name = ''style'',
      \<lambda>name attrs. name = ''link''
         \<and> (case map_of attrs ''rel'' of Some v \<Rightarrow> toLowerCase v = ''stylesheet'' | None \<Rightarrow> False),
      \<lambda>name attrs. name = ''meta'',
      \<lambda>name attrs. name = ''title'',
      \<lambda>name attrs. name = ''header'',
      \<lambda>name attrs. name = ''footer'',
      hasId ''soapAfterPagesContainer'']"

definition bodyContentOf :: "node list \<Rightarrow> string" where
  "bodyContentOf d =
     (case concat (map (selectAll (\<lambda>name attrs. name = ''body'')) d) of
        Element name attrs cs # rest \<Rightarrow> serializeChildren False cs
      | _ \<Rightarrow> serializeChildren False d)"

record extractionResult =
  cleanedHtml :: string
  components :: "component list"
  saved :: "savedComponent list"

definition afterTargets :: "node list \<Rightarrow> cstate" where
  "afterTargets d =
     foldl processTarget
       \<lparr>doc = d, placeholderCounter = 1, extractedComponents = [], savedComponents = [],
        processedSections = []\<rparr> targetIds"

definition afterSections :: "cstate \<Rightarrow> cstate" where
  "afterSections st = foldl sectionStep st (enumerate 0 (sectionsInList [] 0 False (doc st)))"

definition extractComponents :: "node list \<Rightarrow> extractionResult" where
  "extractComponents d =
     (let st = afterSections (afterTargets d);
          cleaned = foldl (\<lambda>d p. removeWhere p d) (doc st) removals
      in \<lparr>cleanedHtml = cleanHtmlStructure (bodyContentOf cleaned),
          components = extractedComponents st,
          saved = savedComponents st\<rparr>)"

text \<open>A document as the parser builds it: a void element has no children.\<close>

fun parsed :: "node \<Rightarrow> bool" where
  "parsed (Element name attrs cs) =
     ((name \<in> set voidElements \<longrightarrow> cs = []) \<and> list_all parsed cs)"
| "parsed (Text t) = True"
| "parsed (Comment c) = True"
| "parsed (Doctype d) = True"

text \<open>The documents of the scenarios.\<close>

definition nestedSectionsDoc :: "node list" where
  "nestedSectionsDoc =
     [Element ''html'' [] [Element ''head'' [] [],
        Element ''body'' []
          [Element ''section'' [(''id'', ''a'')] [Text ''X''],
           Element ''section'' [(''id'', ''b'')]
             [Element ''section'' [(''id'', ''c'')] [Text ''Y'']]]]]"

definition targetSectionDoc :: "node list" where
  "targetSectionDoc =
     [Element ''html'' [] [Element ''head'' [] [],
        Element ''body'' []
          [Element ''section'' [(''id'', ''a'')]
             [Element ''section'' [(''id'', ''pinnedTopLeft'')] [Text ''Y'']]]]]"

text \<open>A section inside a section inside a section, and two sections with one id, the
  second with a section inside.\<close>

definition threeLevelDoc :: "node list" where
  "threeLevelDoc =
     [Element ''html'' [] [Element ''head'' [] [],
        Element ''body'' []
          [Element ''section'' [(''id'', ''z'')]
             [Element ''section'' [(''id'', ''a'')]
                [Element ''section'' [(''id'', ''b'')] [Text ''Y'']]]]]]"

definition duplicateIdDoc :: "node list" where
  "duplicateIdDoc =
     [Element ''html'' [] [Element ''head'' [] [],
        Element ''body'' []
          [Element ''section'' [(''id'', ''x'')] [Text ''X''],
           Element ''section'' [(''id'', ''x'')]
             [Element ''section'' [(''id'', ''y'')] [Text ''Y'']]]]]"

section \<open>StyleApplicator: \<open>HtmlStyleProcessorService.processHtml\<close>\<close>

text \<open>
  The style document is any JSON value.  A number is kept as the text JavaScript prints
  for it, which is all the service does with a number; an object is the list of its
  properties in the order \<open>for ... in\<close> enumerates them.
\<close>

datatype json =
    JNull
  | JBool bool
  | JNum string
  | JStr string
  | JArr "json list"
  | JObj "(string \<times> json) list"

text \<open>JavaScript's truthiness, and \<open>typeof v === 'object'\<close> for a truthy \<open>v\<close>.\<close>

fun truthy :: "json \<Rightarrow> bool" where
  "truthy JNull = False"
| "truthy (JBool b) = b"
| "truthy (JNum r) = (r \<noteq> ''0'' \<and> r \<noteq> ''NaN'')"
| "truthy (JStr s) = (s \<noteq> [])"
| "truthy (JArr xs) = True"
| "truthy (JObj kvs) = True"

fun isObject :: "json \<Rightarrow> bool" where
  "isObject (JArr xs) = True"
| "isObject (JObj kvs) = True"
| "isObject v = False"

text \<open>
  \<open>data.tag && data.tag.toLowerCase() === 'script'\<close> and
  \<open>data.html && data.html.toLowerCase().includes('<script')\<close>, for the property as read
  (\<open>None\<close> when the object has none): a truthy value that is not a string has no
  \<open>toLowerCase\<close>, and the call throws a \<open>TypeError\<close>.
\<close>

fun isScriptTag :: "json option \<Rightarrow> error + bool" where
  "isScriptTag None = Inr False"
| "isScriptTag (Some (JStr s)) = Inr (s \<noteq> [] \<and> toLowerCase s = ''script'')"
| "isScriptTag (Some v) = (if truthy v then Inl TypeError else Inr False)"

fun hasScriptHtml :: "json option \<Rightarrow> error + bool" where
  "hasScriptHtml None = Inr False"
| "hasScriptHtml (Some (JStr s)) = Inr (s \<noteq> [] \<and> jsIncludes (toLowerCase s) ''<script'')"
| "hasScriptHtml (Some v) = (if truthy v then Inl TypeError else Inr False)"

record jsonStyleEntry =
  jTag :: "json option"
  jId :: "json option"
  jClassName :: "json option"
  jHtml :: "json option"
  jStyles :: json
  jsonIndex :: nat

text \<open>
  The part of \<open>flattenElements\<close> that looks at one object: \<open>Inr None\<close> is the early
  \<open>return flatArray\<close> of a script entry, which also leaves the children out.
\<close>

definition recordEntry ::
  "(string \<times> json) list \<Rightarrow> jsonStyleEntry list \<Rightarrow> error + jsonStyleEntry list option" where
  "recordEntry kvs flatArray =
     (case map_of kvs ''styles'' of
        None \<Rightarrow> Inr (Some flatArray)
      | Some styles \<Rightarrow>
          if truthy styles \<and> isObject styles then
            (case isScriptTag (map_of kvs ''tag'') of
               Inl e \<Rightarrow> Inl e
             | Inr True \<Rightarrow> Inr None
             | Inr False \<Rightarrow>
                 (case hasScriptHtml (map_of kvs ''html'') of
                    Inl e \<Rightarrow> Inl e
                  | Inr True \<Rightarrow> Inr None
                  | Inr False \<Rightarrow>
                      Inr (Some (flatArray @
                        [\<lparr>jTag = map_of kvs ''tag'', jId = map_of kvs ''id'',
                          jClassName = map_of kvs ''className'', jHtml = map_of kvs ''html'',
                          jStyles = styles, jsonIndex = length flatArray\<rparr>]))))
          else Inr (Some flatArray))"

text \<open>\<open>data.children\<close> when it is an array, and no children otherwise.\<close>

definition childrenOf :: "(string \<times> json) list \<Rightarrow> json list" where
  "childrenOf kvs = (case map_of kvs ''children'' of Some (JArr cs) \<Rightarrow> cs | _ \<Rightarrow> [])"

function flattenElements :: "json \<Rightarrow> jsonStyleEntry list \<Rightarrow> error + jsonStyleEntry list"
  and flattenList :: "json list \<Rightarrow> jsonStyleEntry list \<Rightarrow> error + jsonStyleEntry list" where
  "flattenElements (JArr xs) flatArray = flattenList xs flatArray"
| "flattenElements (JObj kvs) flatArray =
     (case recordEntry kvs flatArray of
        Inl e \<Rightarrow> Inl e
      | Inr None \<Rightarrow> Inr flatArray
      | Inr (Some flatArray') \<Rightarrow> flattenList (childrenOf kvs) flatArray')"
| "flattenElements JNull flatArray = Inr flatArray"
| "flattenElements (JBool b) flatArray = Inr flatArray"
| "flattenElements (JNum r) flatArray = Inr flatArray"
| "flattenElements (JStr s) flatArray = Inr flatArray"
| "flattenList [] flatArray = Inr flatArray"
| "flattenList (x # xs) flatArray =
     (case flattenElements x flatArray of
        Inl e \<Rightarrow> Inl e
      | Inr flatArray' \<Rightarrow> flattenList xs flatArray')"
  by pat_completeness auto
termination
proof (relation "measure (\<lambda>a. case a of Inl (v, _) \<Rightarrow> 2 * size v | Inr (vs, _) \<Rightarrow> 2 * size_list size vs + 1)")
  show "wf (measure (\<lambda>a. case a of Inl (v, _) \<Rightarrow> 2 * size v
                                 | Inr (vs, _) \<Rightarrow> 2 * size_list size vs + 1))"
    by simp
next
  fix xs :: "json list" and flatArray :: "jsonStyleEntry list"
  show "(Inr (xs, flatArray), Inl (JArr xs, flatArray))
          \<in> measure (\<lambda>a. case a of Inl (v, _) \<Rightarrow> 2 * size v
                                   | Inr (vs, _) \<Rightarrow> 2 * size_list size vs + 1)"
    by simp
next
  fix kvs :: "(string \<times> json) list" and flatArray x2 flatArray' :: "jsonStyleEntry list"
    and x2a
  have "size_list size (childrenOf kvs) < size (JObj kvs)"
  proof (cases "map_of kvs ''children''")
    case None
    then show ?thesis by (simp add: childrenOf_def)
  next
    case (Some v)
    then have "(''children'', v) \<in> set kvs" by (rule map_of_SomeD)
    then have "size v \<le> size_list (size_prod (\<lambda>_. 0) size) kvs"
      by (induction kvs) auto
    with Some show ?thesis by (cases v) (auto simp: childrenOf_def)
  qed
  then show "(Inr (childrenOf kvs, flatArray'), Inl (JObj kvs, flatArray))
          \<in> measure (\<lambda>a. case a of Inl (v, _) \<Rightarrow> 2 * size v
                                   | Inr (vs, _) \<Rightarrow> 2 * size_list size vs + 1)"
    by simp
next
  fix x :: json and xs :: "json list" and flatArray :: "jsonStyleEntry list"
  show "(Inl (x, flatArray), Inr (x # xs, flatArray))
          \<in> measure (\<lambda>a. case a of Inl (v, _) \<Rightarrow> 2 * size v
                                   | Inr (vs, _) \<Rightarrow> 2 * size_list size vs + 1)"
    by simp
next
  fix x :: json and xs :: "json list" and flatArray x2 :: "jsonStyleEntry list"
  show "(Inr (xs, x2), Inr (x # xs, flatArray))
          \<in> measure (\<lambda>a. case a of Inl (v, _) \<Rightarrow> 2 * size v
                                   | Inr (vs, _) \<Rightarrow> 2 * size_list size vs + 1)"
    by simp
qed

text \<open>
  What \<open>for (const property in styles)\<close> enumerates: the properties of an object, the
  indices of an array or of a string, nothing for the other values.  (The entries that
  \<open>flattenElements\<close> records have an object or an array there.)
\<close>

fun styleProps :: "json \<Rightarrow> (string \<times> json) list" where
  "styleProps (JObj kvs) = kvs"
| "styleProps (JArr xs) = zip (map showNat [0..<length xs]) xs"
| "styleProps (JStr s) = zip (map showNat [0..<length s]) (map (\<lambda>c. JStr [c]) s)"
| "styleProps v = []"

text \<open>
  \<open>styles.hasOwnProperty(property)\<close>.  When the object has a property of its own with
  the name \<open>hasOwnProperty\<close>, the lookup finds that property: a value read from JSON,
  which cannot be called, so the call throws a \<open>TypeError\<close>.  Otherwise the lookup finds
  the inherited method, and it is true of every property enumerated.
\<close>

fun shadowsHasOwnProperty :: "json \<Rightarrow> bool" where
  "shadowsHasOwnProperty (JObj kvs) = (''hasOwnProperty'' \<in> fst ` set kvs)"
| "shadowsHasOwnProperty v = False"

definition hasOwnPropertyCall :: "json \<Rightarrow> string \<Rightarrow> error + bool" where
  "hasOwnPropertyCall styles property =
     (if shadowsHasOwnProperty styles then Inl TypeError else Inr True)"

text \<open>What one property adds to \<open>inlineStyleString\<close>: its value counts when it is a
  non-empty string or a number.\<close>

fun styleDeclaration :: "string \<Rightarrow> json \<Rightarrow> string" where
  "styleDeclaration property (JStr v) = (if v \<noteq> [] then property @ '': '' @ v @ ''; '' else [])"
| "styleDeclaration property (JNum r) = property @ '': '' @ r @ ''; ''"
| "styleDeclaration property v = []"

text \<open>The loop that builds \<open>inlineStyleString\<close>, over the properties still to come.\<close>

fun inlineStyleString :: "json \<Rightarrow> (string \<times> json) list \<Rightarrow> string \<Rightarrow> error + string" where
  "inlineStyleString styles [] inline = Inr inline"
| "inlineStyleString styles ((property, v) # ps) inline =
     (case hasOwnPropertyCall styles property of
        Inl e \<Rightarrow> Inl e
      | Inr True \<Rightarrow> inlineStyleString styles ps (inline @ styleDeclaration property v)
      | Inr False \<Rightarrow> inlineStyleString styles ps inline)"

definition excludedTags :: "string list" where
  "excludedTags = [''html'', ''head'', ''meta'', ''title'', ''script'', ''noscript'', ''style'',
     ''link'']"

text \<open>
  \<open>$('*').toArray()\<close>: every element in document order, with the path to it and whether
  \<open>closest('body')\<close> finds something, that is, whether it or an ancestor is a \<open>body\<close>.
\<close>

fun elementsIn :: "nat list \<Rightarrow> bool \<Rightarrow> node \<Rightarrow> (nat list \<times> bool \<times> node) list"
  and elementsInList ::
    "nat list \<Rightarrow> nat \<Rightarrow> bool \<Rightarrow> node list \<Rightarrow> (nat list \<times> bool \<times> node) list" where
  "elementsIn path inBody (Element name attrs cs) =
     (path, inBody \<or> name = ''body'', Element name attrs cs)
       # elementsInList path 0 (inBody \<or> name = ''body'') cs"
| "elementsIn path inBody (Text t) = []"
| "elementsIn path inBody (Comment c) = []"
| "elementsIn path inBody (Doctype d) = []"
| "elementsInList path i inBody [] = []"
| "elementsInList path i inBody (c # cs) =
     elementsIn (path @ [i]) inBody c @ elementsInList path (Suc i) inBody cs"

text \<open>The filter that gives \<open>allHtmlElements\<close>.\<close>

fun qualifies :: "nat list \<times> bool \<times> node \<Rightarrow> bool" where
  "qualifies (path, closestBody, Element name attrs cs) =
     (toLowerCase name \<notin> set excludedTags \<and> (closestBody \<or> toLowerCase name = ''body''))"
| "qualifies (path, closestBody, n) = False"

definition allHtmlElements :: "node list \<Rightarrow> (nat list \<times> bool \<times> node) list" where
  "allHtmlElements d = filter qualifies (elementsInList [] 0 False d)"

text \<open>\<open>$(element).attr(k, v)\<close> for the element at a path.\<close>

fun setAttrAt :: "nat list \<Rightarrow> string \<Rightarrow> string \<Rightarrow> node list \<Rightarrow> node list" where
  "setAttrAt [] k v ns = ns"
| "setAttrAt (i # p) k v ns =
     (if i < length ns then
        (case ns ! i of
           Element name attrs cs \<Rightarrow>
             ns[i := (if p = [] then Element name (AList.update k v attrs) cs
                      else Element name attrs (setAttrAt p k v cs))]
         | _ \<Rightarrow> ns)
      else ns)"

text \<open>The document \<open>$\<close> and the three counters of \<open>processHtml\<close>.\<close>

record pstate =
  pdoc :: "node list"
  totalMatches :: nat
  skippedScriptElements :: nat
  indexMismatches :: nat

text \<open>
  One turn of the main loop, for \<open>htmlIndex\<close> and the element there.  The element object
  is the one collected before the loop; only its own \<open>style\<close> attribute is ever changed,
  and only in its own turn, so the attributes collected are the current ones.
\<close>

fun loopStep ::
  "jsonStyleEntry list \<Rightarrow> pstate \<Rightarrow> nat \<times> nat list \<times> bool \<times> node \<Rightarrow> error + pstate" where
  "loopStep jsonStylesArray st (htmlIndex, path, closestBody, Element name attrs cs) =
     (if toLowerCase name = ''script'' then
        Inr (st\<lparr>skippedScriptElements := Suc (skippedScriptElements st)\<rparr>)
      else if htmlIndex < length jsonStylesArray then
        (case isScriptTag (jTag (jsonStylesArray ! htmlIndex)) of
           Inl e \<Rightarrow> Inl e
         | Inr True \<Rightarrow> Inr (st\<lparr>indexMismatches := Suc (indexMismatches st)\<rparr>)
         | Inr False \<Rightarrow>
             (case hasScriptHtml (jHtml (jsonStylesArray ! htmlIndex)) of
                Inl e \<Rightarrow> Inl e
              | Inr True \<Rightarrow> Inr (st\<lparr>indexMismatches := Suc (indexMismatches st)\<rparr>)
              | Inr False \<Rightarrow>
                  (case inlineStyleString (jStyles (jsonStylesArray ! htmlIndex))
                          (styleProps (jStyles (jsonStylesArray ! htmlIndex))) [] of
                     Inl e \<Rightarrow> Inl e
                   | Inr inlineStyle \<Rightarrow>
                       (let inline = trim inlineStyle;
                            existingStyle =
                              (case map_of attrs ''style'' of Some v \<Rightarrow> v | None \<Rightarrow> [])
                        in Inr (st\<lparr>pdoc :=
                                      (if inline \<noteq> [] then
                                         setAttrAt path ''style''
                                           (existingStyle
                                              @ (if existingStyle \<noteq> [] then ''; '' else [])
                                              @ inline) (pdoc st)
                                       else pdoc st),
                                   totalMatches := Suc (totalMatches st)\<rparr>)))))
      else Inr (st\<lparr>indexMismatches := Suc (indexMismatches st)\<rparr>))"
| "loopStep jsonStylesArray st (htmlIndex, path, closestBody, n) = Inr st"

fun mainLoop ::
  "jsonStyleEntry list \<Rightarrow> pstate \<Rightarrow> (nat \<times> nat list \<times> bool \<times> node) list \<Rightarrow> error + pstate" where
  "mainLoop jsonStylesArray st [] = Inr st"
| "mainLoop jsonStylesArray st (e # es) =
     (case loopStep jsonStylesArray st e of
        Inl err \<Rightarrow> Inl err
      | Inr st' \<Rightarrow> mainLoop jsonStylesArray st' es)"

text \<open>
  \<open>formatCleanHtml\<close>.  \<open>replaceTagGaps\<close> is \<^verbatim>\<open>.replace(/>\s*</g, '>\n<')\<close>: at a \<^verbatim>\<open>>\<close> the
  white space that follows is skipped, and the match succeeds when a \<^verbatim>\<open><\<close> comes next.
  \<open>collapseBlankLines\<close> is \<^verbatim>\<open>.replace(/\n\s*\n/g, '\n')\<close>: at a line feed the match runs
  to the last line feed of the white space that follows, when there is one.  In both the
  scan goes on after the match.
\<close>

function replaceTagGaps :: "string \<Rightarrow> string" where
  "replaceTagGaps [] = []"
| "replaceTagGaps (c # cs) =
     (if c = CHR ''>'' \<and> (case dropWhile isWhiteSpace cs of d # r \<Rightarrow> d = CHR ''<'' | [] \<Rightarrow> False)
      then [CHR ''>'', nl, CHR ''<''] @ replaceTagGaps (tl (dropWhile isWhiteSpace cs))
      else c # replaceTagGaps cs)"
  by pat_completeness auto
termination
proof (relation "measure length")
  show "wf (measure (length :: string \<Rightarrow> nat))" by simp
next
  fix c :: char and cs :: string
  have "length (dropWhile isWhiteSpace cs) \<le> length cs" by (rule length_dropWhile_le)
  then have "length (tl (dropWhile isWhiteSpace cs)) < length (c # cs)" by simp
  then show "(tl (dropWhile isWhiteSpace cs), c # cs) \<in> measure length" by simp
next
  fix c :: char and cs :: string
  show "(cs, c # cs) \<in> measure length" by simp
qed

text \<open>The white space after a line feed up to its last line feed, as a length.\<close>

definition blankRun :: "string \<Rightarrow> nat" where
  "blankRun cs =
     length (takeWhile isWhiteSpace cs)
       - length (takeWhile (\<lambda>c. c \<noteq> nl) (rev (takeWhile isWhiteSpace cs)))"

function collapseBlankLines :: "string \<Rightarrow> string" where
  "collapseBlankLines [] = []"
| "collapseBlankLines (c # cs) =
     (if c = nl \<and> nl \<in> set (takeWhile isWhiteSpace cs)
      then nl # collapseBlankLines (drop (blankRun cs) cs)
      else c # collapseBlankLines cs)"
  by pat_completeness auto
termination
  by (relation "measure length") auto

text \<open>\<open>split('\n')\<close> and \<open>join('\n')\<close>.\<close>

fun splitLines :: "string \<Rightarrow> string list" where
  "splitLines [] = [[]]"
| "splitLines (c # cs) =
     (if c = nl then [] # splitLines cs
      else (case splitLines cs of l # ls \<Rightarrow> (c # l) # ls | [] \<Rightarrow> [[c]]))"

fun joinLines :: "string list \<Rightarrow> string" where
  "joinLines [] = []"
| "joinLines [l] = l"
| "joinLines (l # ls) = l @ nl # joinLines ls"

text \<open>
  The text part of \<open>formatCleanHtml\<close>, from \<open>cleanHtml = $.html()\<close> on.
\<close>

definition prettyPrint :: "string \<Rightarrow> string" where
  "prettyPrint cleanHtml =
     joinLines (filter (\<lambda>line. line \<noteq> [])
       (map trim (splitLines (collapseBlankLines (replaceTagGaps
          (if jsIncludes cleanHtml ''<!DOCTYPE html>'' then cleanHtml
           else ''<!DOCTYPE html>'' @ [nl] @ cleanHtml))))))"

text \<open>
  \<open>cheerio.load\<close>, the HTML parser, is not part of the repository: it is the parameter
  \<open>load\<close> of the two functions that call it.  \<open>$.html()\<close> is the serialisation of the
  root's children.
\<close>

definition formatCleanHtml :: "(string \<Rightarrow> node list) \<Rightarrow> string \<Rightarrow> string" where
  "formatCleanHtml load html =
     prettyPrint (serializeChildren False (removeWhere (\<lambda>name attrs. name = ''style'') (load html)))"

text \<open>The result, without \<open>applicationRate\<close>, a floating-point quotient printed with
  \<open>toFixed\<close>.\<close>

record processResult =
  styledHtml :: string
  statTotalMatches :: nat
  statTotalHtmlElements :: nat
  statTotalJsonEntries :: nat
  statIndexMismatches :: nat
  statSkippedScriptElements :: nat

definition processHtml ::
  "(string \<Rightarrow> node list) \<Rightarrow> string \<Rightarrow> json \<Rightarrow> error + processResult" where
  "processHtml load rawHtml layoutJson =
     (case flattenElements layoutJson [] of
        Inl e \<Rightarrow> Inl e
      | Inr jsonStylesArray \<Rightarrow>
          (let allElements = allHtmlElements (load rawHtml) in
           case mainLoop jsonStylesArray
                  \<lparr>pdoc = load rawHtml, totalMatches = 0, skippedScriptElements = 0,
                   indexMismatches = 0\<rparr> (enumerate 0 allElements) of
             Inl e \<Rightarrow> Inl e
           | Inr st \<Rightarrow>
               Inr \<lparr>styledHtml = formatCleanHtml load (serializeChildren False (pdoc st)),
                    statTotalMatches = totalMatches st,
                    statTotalHtmlElements = length allElements,
                    statTotalJsonEntries = length jsonStylesArray,
                    statIndexMismatches = indexMismatches st,
                    statSkippedScriptElements = skippedScriptElements st\<rparr>))"

text \<open>An entry that the main loop will not take for a script.\<close>

definition cleanEntry :: "jsonStyleEntry \<Rightarrow> bool" where
  "cleanEntry e = (isScriptTag (jTag e) = Inr False \<and> hasScriptHtml (jHtml e) = Inr False)"

text \<open>An entry whose styles the style loop can enumerate.\<close>

definition plainStyles :: "jsonStyleEntry \<Rightarrow> bool" where
  "plainStyles e = (\<not> shadowsHasOwnProperty (jStyles e))"

text \<open>A parser for the scenarios: it knows one page.\<close>

definition demoLoad :: "string \<Rightarrow> node list" where
  "demoLoad html =
     [Element ''html'' [] [Element ''head'' [] [Element ''title'' [] [Text ''t'']],
        Element ''body'' [] [Element ''div'' [(''style'', ''margin: 0'')] [Element ''p'' [] [Text ''x'']]]]]"

definition demoLayout :: json where
  "demoLayout =
     JObj [(''tag'', JStr ''BODY''), (''styles'', JObj [(''color'', JStr ''red'')]),
           (''children'', JArr
              [JObj [(''tag'', JStr ''SCRIPT''), (''styles'', JObj [(''x'', JStr ''y'')])],
               JObj [(''tag'', JStr ''DIV''), (''styles'', JObj [(''width'', JNum ''10''), (''n'', JNull)]),
                     (''children'', JArr [JObj [(''styles'', JObj [])]])]])]"

text \<open>
  The page \<^verbatim>\<open><html><head></head><body></body></html>\<close>, with \<open>body\<close> as its one qualifying
  element, and the style document \<^verbatim>\<open>{"styles": {"hasOwnProperty": "x"}}\<close>, which flattens
  to one entry.
\<close>

definition emptyPageLoad :: "string \<Rightarrow> node list" where
  "emptyPageLoad html = [Element ''html'' [] [Element ''head'' [] [], Element ''body'' [] []]]"

definition shadowingLayout :: json where
  "shadowingLayout = JObj [(''styles'', JObj [(''hasOwnProperty'', JStr ''x'')])]"

section \<open>Putting the widgets back\<close>

text \<open>
  The substitution the round-trip law speaks of: every occurrence of a token is replaced
  by the fragment, as it is (no replacement patterns), the widgets taken in the order in
  which they were extracted.
\<close>

function replaceAllVerbatim :: "string \<Rightarrow> string \<Rightarrow> string \<Rightarrow> string" where
  "replaceAllVerbatim k r s =
     (if k \<noteq> [] \<and> prefix k s then r @ replaceAllVerbatim k r (drop (length k) s)
      else (case s of [] \<Rightarrow> [] | c # cs \<Rightarrow> c # replaceAllVerbatim k r cs))"
  by pat_completeness auto
termination
  by (relation "measure (\<lambda>(k, r, s). length s)") (auto simp: prefix_def)

declare replaceAllVerbatim.simps [simp del]

definition substituteWidgets :: "(string \<times> string) list \<Rightarrow> string \<Rightarrow> string" where
  "substituteWidgets ws s = foldl (\<lambda>s w. replaceAllVerbatim (fst w) (snd w) s) s ws"

text \<open>"Ignoring whitespace".\<close>

definition stripWhitespace :: "string \<Rightarrow> string" where
  "stripWhitespace s = filter (\<lambda>c. \<not> isWhiteSpace c) s"

text \<open>
  The serialised document cut into pieces: text that extraction leaves alone, and the
  markup of an extracted widget with the number of its token.  A widget below a void
  element is extracted like any other, but neither it nor its token is ever serialised.
\<close>

datatype seg = Lit string | Hole nat string | Hidden nat string

fun origSeg :: "seg \<Rightarrow> string" where
  "origSeg (Lit s) = s"
| "origSeg (Hole i h) = h"
| "origSeg (Hidden i h) = []"

fun modiSeg :: "seg \<Rightarrow> string" where
  "modiSeg (Lit s) = s"
| "modiSeg (Hole i h) = widgetKey i"
| "modiSeg (Hidden i h) = []"

fun holeOf :: "seg \<Rightarrow> (string \<times> string) list" where
  "holeOf (Lit s) = []"
| "holeOf (Hole i h) = [(widgetKey i, h)]"
| "holeOf (Hidden i h) = [(widgetKey i, h)]"

fun idxOf :: "seg \<Rightarrow> nat list" where
  "idxOf (Lit s) = []"
| "idxOf (Hole i h) = [i]"
| "idxOf (Hidden i h) = [i]"

definition orig :: "seg list \<Rightarrow> string" where "orig segs = concat (map origSeg segs)"
definition modi :: "seg list \<Rightarrow> string" where "modi segs = concat (map modiSeg segs)"
definition holes :: "seg list \<Rightarrow> (string \<times> string) list" where
  "holes segs = concat (map holeOf segs)"
definition idxs :: "seg list \<Rightarrow> nat list" where "idxs segs = concat (map idxOf segs)"

text \<open>No token can collide with the text: the text has no \<open>{{widget-\<close>.\<close>

definition tokenFree :: "string \<Rightarrow> bool" where
  "tokenFree s = (\<not> sublist ''{{widget-'' s)"

text \<open>
  The pieces of a node, for the counter at which \<open>processElement\<close> reaches it: \<open>raw\<close> says
  that the parent is a raw text element, \<open>vis\<close> that the node is serialised at all (no
  ancestor is a void element).  The function follows \<open>processElement\<close> and
  \<open>serializeNode\<close> side by side.
\<close>

fun segsOfNode :: "string list \<Rightarrow> bool \<Rightarrow> bool \<Rightarrow> node \<Rightarrow> nat \<Rightarrow> seg list \<times> nat"
  and segsOfList :: "string list \<Rightarrow> bool \<Rightarrow> bool \<Rightarrow> node list \<Rightarrow> nat \<Rightarrow> seg list \<times> nat" where
  "segsOfNode anc raw vis (Element name attrs cs) n =
     (if toLowerCase name \<in> set WIDGET_ELEMENTS
         \<and> \<not> (toLowerCase name = ''main'' \<and> \<not> isInsideSection anc) then
        ([if vis then Hole n (outerHTML (Element name attrs cs))
          else Hidden n (outerHTML (Element name attrs cs))], Suc n)
      else
        (case segsOfList (name # anc) (name \<in> set rawTextElements)
                (vis \<and> name \<notin> set voidElements) cs n of
           (inner, n') \<Rightarrow>
             ((if vis then [Lit (''<'' @ name @ serializeAttrs attrs @ ''>'')] else [])
                @ inner
                @ (if vis \<and> name \<notin> set voidElements then [Lit (''</'' @ name @ ''>'')] else []),
              n')))"
| "segsOfNode anc raw vis (Text t) n = ([Lit (if vis then serializeNode raw (Text t) else [])], n)"
| "segsOfNode anc raw vis (Comment c) n =
     ([Lit (if vis then serializeNode raw (Comment c) else [])], n)"
| "segsOfNode anc raw vis (Doctype d) n =
     ([Lit (if vis then serializeNode raw (Doctype d) else [])], n)"
| "segsOfList anc raw vis [] n = ([], n)"
| "segsOfList anc raw vis (c # cs) n =
     (case segsOfNode anc raw vis c n of
        (s1, n1) \<Rightarrow>
          (case segsOfList anc raw vis cs n1 of
             (s2, n2) \<Rightarrow> (s1 @ s2, n2)))"

text \<open>Every key of the state was minted below the counter.\<close>

definition keysBelow :: "wstate \<Rightarrow> bool" where
  "keysBelow st = (fst ` set (widgets st) \<subseteq> widgetKey ` {..<widgetCounter st})"

text \<open>The documents of the scenarios: one whose text already holds a token, one whose
  text does not.\<close>

definition collisionDoc :: document where
  "collisionDoc =
     \<lparr>docBefore = ''<html><head></head><body>'',
      bodyChildren = [Element ''div'' [] [Text ''{{widget-1}}''], Element ''p'' [] [Text ''x'']],
      docAfter = ''</body></html>''\<rparr>"

definition plainDoc :: document where
  "plainDoc =
     \<lparr>docBefore = ''<html><head></head><body>'',
      bodyChildren = [Element ''div'' [] [Element ''p'' [] [Text ''x''], Text ''{{y}}''],
                      Element ''span'' [] [Text ''z'']],
      docAfter = ''</body></html>''\<rparr>"

section \<open>Theorems\<close>

subsection \<open>Numerals and keys\<close>

lemma digitVal_digitChar: "d < 10 \<Longrightarrow> digitVal (digitChar d) = d"
proof -
  assume "d < 10"
  then have "d \<in> {0, 1, 2, 3, 4, 5, 6, 7, 8, 9}" by auto
  then show ?thesis by (auto simp: digitVal_def digitChar_def)
qed

lemma isDigit_digitChar: "d < 10 \<Longrightarrow> isDigit (digitChar d)"
proof -
  assume "d < 10"
  then have "d \<in> {0, 1, 2, 3, 4, 5, 6, 7, 8, 9}" by auto
  then show ?thesis by (auto simp: isDigit_def digitChar_def)
qed

lemma readNat_showNat: "readNat (showNat n) = n"
proof (induction n rule: showNat.induct)
  case (1 n)
  show ?case
  proof (cases "n < 10")
    case True
    then show ?thesis
      by (simp add: showNat.simps[of n] readNat_def digitVal_digitChar)
  next
    case False
    with 1 have "readNat (showNat (n div 10)) = n div 10" by simp
    with False show ?thesis
      by (simp add: showNat.simps[of n] readNat_def digitVal_digitChar)
  qed
qed

lemma showNat_inj: "showNat m = showNat n \<Longrightarrow> m = n"
  by (metis readNat_showNat)

lemma showNat_digits: "list_all isDigit (showNat n)"
proof (induction n rule: showNat.induct)
  case (1 n)
  show ?case
  proof (cases "n < 10")
    case True
    then show ?thesis by (simp add: showNat.simps[of n] isDigit_digitChar)
  next
    case False
    with 1 show ?thesis by (simp add: showNat.simps[of n] isDigit_digitChar)
  qed
qed

lemma showNat_nonempty: "showNat n \<noteq> []"
  by (subst showNat.simps) simp

lemma widgetKey_inj: "widgetKey m = widgetKey n \<Longrightarrow> m = n"
  by (auto simp: widgetKey_def dest: showNat_inj)

lemma update_fresh: "k \<notin> fst ` set al \<Longrightarrow> AList.update k v al = al @ [(k, v)]"
  by (induction al) auto


subsection \<open>WidgetExtractor\<close>













subsection \<open>TreeSerializer\<close>

lemma trim_Hello: "trim ''Hello'' = ''Hello''"
  by (simp add: trim_def isWhiteSpace_def)

text \<open>
  Claim C9.  For every element node (type \<open>tag\<close>) whose converted children list has
  exactly one entry, a string, \<open>elementToJson\<close> returns a node that carries the string in
  \<open>textContent\<close> and has no children; and \<^verbatim>\<open><body><p>Hello</p></body>\<close> yields
  \<open>{tagName: "p", attributes: {}, children: [], textContent: "Hello"}\<close> as the body's only
  child, with three nodes counted.
\<close>

theorem elementToJson_collapses_single_text:
  "(\<forall>name attribs cs n s n'.
      convertChildren cs [] (Suc n) = ([JString s], n') \<longrightarrow>
      elementToJson (TagNode name attribs cs) n = (JNode name attribs [] (Some s), n'))
   \<and> elementToJson helloBody 0
       = (JNode ''body'' [] [JNode ''p'' [] [] (Some ''Hello'')] None, 3)"
  by (simp add: helloBody_def trim_Hello)

theorem elementToJson_collapses_single_text_witness:
  "convertChildren [TextNode ''Hello''] [] (Suc 1) = ([JString ''Hello''], 3)
   \<and> elementToJson (TagNode ''p'' [] [TextNode ''Hello'']) 1
       = (JNode ''p'' [] [] (Some ''Hello''), 3)"
proof -
  have h: "convertChildren [TextNode ''Hello''] [] (Suc 1) = ([JString ''Hello''], 3)"
    by (simp add: trim_Hello)
  from elementToJson_collapses_single_text h
  have "elementToJson (TagNode ''p'' [] [TextNode ''Hello'']) 1
          = (JNode ''p'' [] [] (Some ''Hello''), 3)"
    by blast
  with h show ?thesis by simp
qed

subsection \<open>Tokens do not overlap\<close>

lemma body_eq:
  assumes "CHR ''}'' \<notin> set x" "CHR ''}'' \<notin> set y"
    and "x @ CHR ''}'' # r1 = y @ CHR ''}'' # r2"
  shows "x = y"
proof -
  have "takeWhile (\<lambda>c. c \<noteq> CHR ''}'') (x @ CHR ''}'' # r1) = x"
    using assms(1) by (induction x) auto
  moreover have "takeWhile (\<lambda>c. c \<noteq> CHR ''}'') (y @ CHR ''}'' # r2) = y"
    using assms(2) by (induction y) auto
  ultimately show ?thesis using assms(3) by simp
qed

lemma braceToken_nonempty: "braceToken t \<Longrightarrow> t \<noteq> []"
  by (auto simp: braceToken_def)

lemma token_overlap:
  assumes t: "braceToken t" and u: "braceToken u"
    and suf: "suffix t' t" and ne: "t' \<noteq> []"
    and pre: "prefix u (t' @ r1) \<or> prefix t' (u @ r2)"
  shows "t' = t \<and> u = t"
proof -
  from t obtain bt where bt: "t = CHR ''{'' # CHR ''{'' # bt @ ''}}''" "bt \<noteq> []"
    "CHR ''{'' \<notin> set bt" "CHR ''}'' \<notin> set bt"
    by (auto simp: braceToken_def)
  from u obtain bu where bu: "u = CHR ''{'' # CHR ''{'' # bu @ ''}}''" "bu \<noteq> []"
    "CHR ''{'' \<notin> set bu" "CHR ''}'' \<notin> set bu"
    by (auto simp: braceToken_def)
  from suf obtain p where p: "t = p @ t'" by (auto simp: suffix_def)
  from ne obtain c t'' where c: "t' = c # t''" by (cases t') auto
  from pre have c1: "c = CHR ''{''"
    by (auto simp: c bu prefix_def)
  have snd: "t'' \<noteq> [] \<Longrightarrow> hd t'' = CHR ''{''"
    using pre by (cases t'') (auto simp: c bu prefix_def)
  show ?thesis
  proof (cases p)
    case Nil
    with p have tt: "t' = t" by simp
    from pre have "bu = bt"
    proof
      assume "prefix u (t' @ r1)"
      then obtain z where "bt @ ''}}'' @ r1 = bu @ ''}}'' @ z"
        by (auto simp: tt bt bu prefix_def)
      then have "bt @ CHR ''}'' # (CHR ''}'' # r1) = bu @ CHR ''}'' # (CHR ''}'' # z)" by simp
      from body_eq[OF bt(4) bu(4) this] show ?thesis by simp
    next
      assume "prefix t' (u @ r2)"
      then obtain z where "bu @ ''}}'' @ r2 = bt @ ''}}'' @ z"
        by (auto simp: tt bt bu prefix_def)
      then have "bu @ CHR ''}'' # (CHR ''}'' # r2) = bt @ CHR ''}'' # (CHR ''}'' # z)" by simp
      from body_eq[OF bu(4) bt(4) this] show ?thesis by simp
    qed
    with tt show ?thesis by (simp add: bt bu)
  next
    case (Cons x p1)
    note P = Cons
    show ?thesis
    proof (cases p1)
      case Nil
      with P p have "t'' = bt @ ''}}''" by (simp add: bt c)
      with bt(2,3) snd have False by (cases bt) auto
      then show ?thesis ..
    next
      case (Cons y p2)
      with P p have "p2 @ c # t'' = bt @ ''}}''" by (simp add: bt c)
      then have "c \<in> set (bt @ ''}}'')" by (metis in_set_conv_decomp)
      with c1 bt(3) have False by auto
      then show ?thesis ..
    qed
  qed
qed

text \<open>A token that occurs in \<open>u @ s\<close>, where \<open>u\<close> is another token, occurs in \<open>s\<close>.\<close>

lemma sublist_skip_token:
  assumes t: "braceToken t" and u: "braceToken u" and neq: "t \<noteq> u"
    and sub: "sublist t (u @ s)"
  shows "sublist t s"
proof -
  from sub have "sublist t u \<or> sublist t s
      \<or> (\<exists>t1 t2. t = t1 @ t2 \<and> suffix t1 u \<and> prefix t2 s)"
    by (simp add: sublist_append)
  then show ?thesis
  proof (elim disjE exE conjE)
    assume "sublist t u"
    then obtain a b where "u = a @ t @ b" by (auto simp: sublist_def)
    then have "suffix (t @ b) u" "prefix t ((t @ b) @ [])" by (auto simp: suffix_def)
    with token_overlap[OF u t, of "t @ b" "[]"] braceToken_nonempty[OF t] neq
    show ?thesis by auto
  next
    assume "sublist t s" then show ?thesis .
  next
    fix t1 t2 assume h: "t = t1 @ t2" "suffix t1 u" "prefix t2 s"
    show ?thesis
    proof (cases "t1 = []")
      case True
      with h show ?thesis by auto
    next
      case False
      from h(3) obtain z where "s = t2 @ z" by (auto simp: prefix_def)
      with h(1) have "prefix t (t1 @ s)" by simp
      with token_overlap[OF u t h(2) False, of s] neq show ?thesis by auto
    qed
  qed
qed

text \<open>A token that occurs in \<open>b @ u @ a\<close>, where \<open>u\<close> is another token, occurs in \<open>b\<close> or
  in \<open>a\<close>.\<close>

lemma sublist_around_token:
  assumes t: "braceToken t" and u: "braceToken u" and neq: "t \<noteq> u"
    and sub: "sublist t (b @ u @ a)"
  shows "sublist t b \<or> sublist t a"
proof -
  from sub have "sublist t b \<or> sublist t (u @ a)
      \<or> (\<exists>t1 t2. t = t1 @ t2 \<and> suffix t1 b \<and> prefix t2 (u @ a))"
    by (simp add: sublist_append)
  then show ?thesis
  proof (elim disjE exE conjE)
    assume "sublist t b" then show ?thesis ..
  next
    assume "sublist t (u @ a)"
    from sublist_skip_token[OF t u neq this] show ?thesis ..
  next
    fix t1 t2 assume h: "t = t1 @ t2" "suffix t1 b" "prefix t2 (u @ a)"
    show ?thesis
    proof (cases "t2 = []")
      case True
      with h have "suffix t b" by simp
      then show ?thesis by auto
    next
      case False
      from h(1) have "suffix t2 t" by (simp add: suffix_def)
      from token_overlap[OF t u this False, of _ a] h(3) have "t2 = t" "u = t" by auto
      with neq show ?thesis by simp
    qed
  qed
qed

subsection \<open>The shape of the tokens\<close>

lemma isDigit_not_brace: "isDigit c \<Longrightarrow> c \<noteq> CHR ''{'' \<and> c \<noteq> CHR ''}'' \<and> c \<noteq> CHR ''$''"
  by (auto simp: isDigit_def)

lemma digits_split:
  assumes "takeWhile isDigit r \<noteq> []" "dropWhile isDigit r = z" "z \<noteq> [] \<longrightarrow> \<not> isDigit (hd z)"
  shows "\<exists>ds. r = ds @ z \<and> ds \<noteq> [] \<and> list_all isDigit ds"
proof -
  have "r = takeWhile isDigit r @ z" using assms(2) by (metis takeWhile_dropWhile_id)
  moreover have "list_all isDigit (takeWhile isDigit r)"
    by (simp add: list_all_iff) (meson set_takeWhileD)
  ultimately show ?thesis using assms(1) by blast
qed

lemma isWigohToken_form:
  assumes "isWigohToken t"
  shows "\<exists>ds. t = ''{{wigoh-id-'' @ ds @ ''}}'' \<and> ds \<noteq> [] \<and> list_all isDigit ds"
proof -
  from assms obtain r where r: "t = ''{{wigoh-id-'' @ r" "takeWhile isDigit r \<noteq> []"
    "dropWhile isDigit r = ''}}''"
    by (auto simp: isWigohToken_def prefix_def)
  from digits_split[OF r(2,3)] obtain ds where "r = ds @ ''}}''" "ds \<noteq> []" "list_all isDigit ds"
    by (auto simp: isDigit_def)
  with r(1) show ?thesis by auto
qed

lemma isWidgetToken_form:
  assumes "isWidgetToken t"
  shows "\<exists>ds. t = ''{{widget-'' @ ds @ ''}}'' \<and> ds \<noteq> [] \<and> list_all isDigit ds"
proof -
  from assms obtain r where r: "t = ''{{widget-'' @ r" "takeWhile isDigit r \<noteq> []"
    "dropWhile isDigit r = ''}}''"
    by (auto simp: isWidgetToken_def prefix_def)
  from digits_split[OF r(2,3)] obtain ds where "r = ds @ ''}}''" "ds \<noteq> []" "list_all isDigit ds"
    by (auto simp: isDigit_def)
  with r(1) show ?thesis by auto
qed

lemma digits_no_brace:
  "list_all isDigit ds \<Longrightarrow> CHR ''{'' \<notin> set ds \<and> CHR ''}'' \<notin> set ds \<and> CHR ''$'' \<notin> set ds"
  by (auto simp: list_all_iff dest: isDigit_not_brace)

lemma isWigohToken_brace: "isWigohToken t \<Longrightarrow> braceToken t"
proof -
  assume "isWigohToken t"
  from isWigohToken_form[OF this] obtain ds where
    ds: "t = ''{{wigoh-id-'' @ ds @ ''}}''" "ds \<noteq> []" "list_all isDigit ds" by blast
  from digits_no_brace[OF ds(3)] ds(1) show ?thesis
    unfolding braceToken_def by (intro exI[of _ "''wigoh-id-'' @ ds"]) auto
qed

lemma isWidgetToken_brace: "isWidgetToken t \<Longrightarrow> braceToken t"
proof -
  assume "isWidgetToken t"
  from isWidgetToken_form[OF this] obtain ds where
    ds: "t = ''{{widget-'' @ ds @ ''}}''" "ds \<noteq> []" "list_all isDigit ds" by blast
  from digits_no_brace[OF ds(3)] ds(1) show ?thesis
    unfolding braceToken_def by (intro exI[of _ "''widget-'' @ ds"]) auto
qed

lemma wigoh_not_widget: "isWigohToken t \<Longrightarrow> isWidgetToken k \<Longrightarrow> t \<noteq> k"
  by (auto dest!: isWigohToken_form isWidgetToken_form)

lemma isWigohToken_no_dollar: "isWigohToken t \<Longrightarrow> CHR ''$'' \<notin> set t"
  by (auto dest!: isWigohToken_form dest: digits_no_brace)

subsection \<open>The two replacements keep the other tokens\<close>

lemma sublist_append_right: "sublist t y \<Longrightarrow> sublist t (x @ y)"
  by (auto simp: sublist_def) (metis append.assoc)

lemma sublist_Cons_keep: "sublist t y \<Longrightarrow> sublist t (c # y)"
  using sublist_append_right[of t y "[c]"] by simp

lemma regexReplaceAll_skip:
  assumes "k \<noteq> []" and "\<And>t'. t' \<noteq> [] \<Longrightarrow> suffix t' A \<Longrightarrow> \<not> prefix k (t' @ B)"
  shows "regexReplaceAll k r pre (A @ B) = A @ regexReplaceAll k r (pre @ A) B"
  using assms(2)
proof (induction A arbitrary: pre)
  case Nil
  then show ?case by simp
next
  case (Cons a A)
  have "\<not> prefix k ((a # A) @ B)" using Cons.prems[of "a # A"] by simp
  then have "regexReplaceAll k r pre ((a # A) @ B)
               = a # regexReplaceAll k r (pre @ [a]) (A @ B)"
    using assms(1) by (subst regexReplaceAll.simps) simp
  moreover have "regexReplaceAll k r (pre @ [a]) (A @ B)
                   = A @ regexReplaceAll k r ((pre @ [a]) @ A) B"
    by (rule Cons.IH) (use Cons.prems in \<open>auto simp: suffix_Cons\<close>)
  ultimately show ?case by simp
qed

lemma regexReplaceAll_keeps:
  assumes t: "braceToken t" and k: "braceToken k" and neq: "t \<noteq> k"
  shows "sublist t s \<Longrightarrow> sublist t (regexReplaceAll k r pre s)"
proof (induction s arbitrary: pre rule: length_induct)
  case (1 s)
  have kne: "k \<noteq> []" by (rule braceToken_nonempty[OF k])
  have tne: "t \<noteq> []" by (rule braceToken_nonempty[OF t])
  show ?case
  proof (cases "prefix k s")
    case True
    then obtain s' where s': "s = k @ s'" by (auto simp: prefix_def)
    with "1.prems" have "sublist t s'" using sublist_skip_token[OF t k neq] by simp
    moreover have "length s' < length s" using s' kne by simp
    ultimately have "sublist t (regexReplaceAll k r (pre @ k) s')" using "1.IH" by blast
    moreover have "regexReplaceAll k r pre s
        = getSubstitution k pre s' r @ regexReplaceAll k r (pre @ k) s'"
      using kne by (subst regexReplaceAll.simps) (simp add: s')
    ultimately show ?thesis by (simp add: sublist_append_right)
  next
    case False
    from "1.prems" tne obtain c cs where cs: "s = c # cs" by (cases s) auto
    from "1.prems" have "prefix t s \<or> sublist t cs" by (simp add: cs sublist_Cons_right)
    then show ?thesis
    proof
      assume "sublist t cs"
      then have "sublist t (regexReplaceAll k r (pre @ [c]) cs)" using "1.IH" cs by simp
      moreover have "regexReplaceAll k r pre s = c # regexReplaceAll k r (pre @ [c]) cs"
        using False kne by (subst regexReplaceAll.simps) (simp add: cs)
      ultimately show ?thesis by (simp add: sublist_Cons_keep)
    next
      assume "prefix t s"
      then obtain rest where rest: "s = t @ rest" by (auto simp: prefix_def)
      have "regexReplaceAll k r pre (t @ rest) = t @ regexReplaceAll k r (pre @ t) rest"
      proof (rule regexReplaceAll_skip[OF kne])
        fix t' assume "t' \<noteq> []" "suffix t' t"
        from token_overlap[OF t k this(2,1), of rest] neq
        show "\<not> prefix k (t' @ rest)" by auto
      qed
      then show ?thesis by (simp add: rest)
    qed
  qed
qed

lemma splitAtFirst_Some: "splitAtFirst k pre s = Some (b, a) \<Longrightarrow> pre @ s = b @ k @ a"
proof (induction k pre s rule: splitAtFirst.induct)
  case (1 k pre s)
  show ?case
  proof (cases "prefix k s")
    case True
    with "1.prems" show ?thesis
      by (subst (asm) splitAtFirst.simps) (auto simp: prefix_def)
  next
    case False
    with "1.prems" obtain c cs where cs: "s = c # cs" "splitAtFirst k (pre @ [c]) cs = Some (b, a)"
      by (subst (asm) splitAtFirst.simps) (auto split: list.splits)
    with "1.IH"[OF False cs(1)] show ?thesis by simp
  qed
qed

lemma getSubstitution_plain:
  "CHR ''$'' \<notin> set W \<Longrightarrow> getSubstitution m b a (W @ Y) = W @ getSubstitution m b a Y"
proof (induction W)
  case Nil
  then show ?case by simp
next
  case (Cons w W)
  then show ?case by (cases "W @ Y") auto
qed

lemma getSubstitution_resume:
  assumes "z \<noteq> CHR ''$''" "z \<noteq> CHR ''&''" "z \<noteq> CHR 0x60" "z \<noteq> CHR 0x27"
  shows "\<exists>P. getSubstitution m b a (X @ z # Z) = P @ getSubstitution m b a (z # Z)"
proof (induction X rule: induct_list012)
  case 1
  show ?case by simp
next
  case (2 x)
  show ?case using assms by simp
next
  case (3 x y zs)
  from 3 obtain P1 P2 where
    P1: "getSubstitution m b a (zs @ z # Z) = P1 @ getSubstitution m b a (z # Z)" and
    P2: "getSubstitution m b a ((y # zs) @ z # Z) = P2 @ getSubstitution m b a (z # Z)"
    by blast
  show ?case using P1 P2 by (auto intro: exI[of _ "_ @ P1"] exI[of _ "_ # P1"] exI[of _ "_ # P2"])
qed

lemma takeWhile_digits:
  "list_all isDigit ds \<Longrightarrow> \<not> isDigit z \<Longrightarrow> takeWhile isDigit (ds @ z # Z) = ds"
  by (induction ds) auto

lemma dropWhile_digits:
  "list_all isDigit ds \<Longrightarrow> \<not> isDigit z \<Longrightarrow> dropWhile isDigit (ds @ z # Z) = z # Z"
  by (induction ds) auto

lemma not_isDigit_brace: "\<not> isDigit (CHR ''}'')"
  by (simp add: isDigit_def)

lemma matchHere_Some:
  assumes "matchHere s = Some u"
  shows "isWigohToken u \<and> (\<exists>Y. s = ''wig-id='' @ [dq] @ u @ [dq] @ Y)"
proof -
  from assms obtain r where r: "s = (''wig-id='' @ [dq] @ ''{{wigoh-id-'') @ r"
    by (auto simp: matchHere_def prefix_def split: if_splits)
  then have d: "drop 19 s = r" by simp
  from assms have h: "takeWhile isDigit r \<noteq> []" "prefix (''}}'' @ [dq]) (dropWhile isDigit r)"
    "u = ''{{wigoh-id-'' @ takeWhile isDigit r @ ''}}''"
    by (auto simp: matchHere_def d Let_def split: if_splits)
  from h(2) obtain Y where Y: "dropWhile isDigit r = ''}}'' @ [dq] @ Y" by (auto simp: prefix_def)
  have "\<exists>ds. r = ds @ (''}}'' @ [dq] @ Y) \<and> ds \<noteq> [] \<and> list_all isDigit ds"
    by (rule digits_split[OF h(1) Y]) (simp add: isDigit_def)
  then obtain ds where ds: "r = ds @ ''}}'' @ [dq] @ Y" "ds \<noteq> []" "list_all isDigit ds" by auto
  have tw: "takeWhile isDigit r = ds"
    by (simp only: ds(1) append_Cons append_Nil takeWhile_digits[OF ds(3) not_isDigit_brace])
  have u: "u = ''{{wigoh-id-'' @ ds @ ''}}''" by (simp add: h(3) tw)
  have "isWigohToken u"
    using ds(2) takeWhile_digits[OF ds(3) not_isDigit_brace, of "''}''"]
      dropWhile_digits[OF ds(3) not_isDigit_brace, of "''}''"]
    by (simp add: u isWigohToken_def)
  moreover have "s = ''wig-id='' @ [dq] @ u @ [dq] @ Y"
    by (simp add: r ds(1) u)
  ultimately show ?thesis by blast
qed

lemma wigIdMatch_Some:
  "wigIdMatch h = Some u \<Longrightarrow>
     isWigohToken u \<and> (\<exists>X Y. h = X @ ''wig-id='' @ [dq] @ u @ [dq] @ Y)"
proof (induction h)
  case Nil
  then show ?case by simp
next
  case (Cons c cs)
  show ?case
  proof (cases "matchHere (c # cs)")
    case None
    with Cons obtain X Y where "isWigohToken u" "cs = X @ ''wig-id='' @ [dq] @ u @ [dq] @ Y"
      by auto
    then have "c # cs = (c # X) @ ''wig-id='' @ [dq] @ u @ [dq] @ Y" by simp
    with \<open>isWigohToken u\<close> show ?thesis by blast
  next
    case (Some v)
    with Cons.prems have "v = u" by simp
    with matchHere_Some[OF Some] show ?thesis by (metis append_Nil)
  qed
qed

lemma getSubstitution_keeps_marker:
  assumes "h = X @ ''wig-id='' @ [dq] @ u @ [dq] @ Y" and "CHR ''$'' \<notin> set u"
  shows "sublist u (getSubstitution m b a h)"
proof -
  define W where "W = ''wig-id='' @ [dq] @ u"
  define Z where "Z = ''ig-id='' @ [dq] @ u @ [dq] @ Y"
  have h: "h = X @ CHR ''w'' # Z" by (simp add: assms(1) Z_def)
  have "\<exists>P. getSubstitution m b a (X @ CHR ''w'' # Z) = P @ getSubstitution m b a (CHR ''w'' # Z)"
    by (rule getSubstitution_resume) simp_all
  then obtain P where
    P: "getSubstitution m b a (X @ CHR ''w'' # Z) = P @ getSubstitution m b a (CHR ''w'' # Z)"
    by blast
  have e: "CHR ''w'' # Z = W @ ([dq] @ Y)" by (simp add: Z_def W_def)
  have "CHR ''$'' \<notin> set W" using assms(2) by (simp add: W_def)
  then have g: "getSubstitution m b a (W @ ([dq] @ Y)) = W @ getSubstitution m b a ([dq] @ Y)"
    by (rule getSubstitution_plain)
  have "getSubstitution m b a h = getSubstitution m b a (X @ CHR ''w'' # Z)"
    by (simp only: h)
  also have "\<dots> = P @ getSubstitution m b a (CHR ''w'' # Z)" by (rule P)
  also have "\<dots> = P @ getSubstitution m b a (W @ ([dq] @ Y))" by (simp only: e)
  also have "\<dots> = P @ W @ getSubstitution m b a ([dq] @ Y)" by (simp only: g)
  finally have "getSubstitution m b a h
      = (P @ ''wig-id='' @ [dq]) @ u @ getSubstitution m b a ([dq] @ Y)"
    by (simp only: W_def append_assoc)
  then show ?thesis unfolding sublist_def by blast
qed

lemma sublist_middle: "sublist t g \<Longrightarrow> sublist t (b @ g @ a)"
  by (auto simp: sublist_def) (metis append.assoc)

lemma sublist_outer: "sublist t b \<or> sublist t a \<Longrightarrow> sublist t (b @ g @ a)"
  by (auto simp: sublist_def) (metis append.assoc)+

lemma stringReplace_keeps:
  assumes t: "isWigohToken t" and u: "wigIdMatch h = Some u"
    and sub: "sublist t s"
  shows "sublist t (stringReplace s u h)"
proof (cases "splitAtFirst u [] s")
  case None
  with sub show ?thesis by (simp add: stringReplace_def)
next
  case (Some ba)
  obtain b a where ba: "ba = (b, a)" by (cases ba)
  from splitAtFirst_Some[of u "[]" s b a] Some ba have s: "s = b @ u @ a" by simp
  from wigIdMatch_Some[OF u] obtain X Y where
    uw: "isWigohToken u" and h: "h = X @ ''wig-id='' @ [dq] @ u @ [dq] @ Y" by blast
  have "sublist t (b @ getSubstitution u b a h @ a)"
  proof (cases "t = u")
    case True
    from getSubstitution_keeps_marker[OF h isWigohToken_no_dollar[OF uw]]
    show ?thesis unfolding True by (rule sublist_middle)
  next
    case False
    from sublist_around_token[OF isWigohToken_brace[OF t] isWigohToken_brace[OF uw] False]
      sub s
    have "sublist t b \<or> sublist t a" by simp
    then show ?thesis by (rule sublist_outer)
  qed
  then show ?thesis by (simp add: stringReplace_def Some ba)
qed

lemma componentStep_keeps:
  assumes "isWigohToken t" "sublist t (reconstructedHtml st)"
  shows "sublist t (reconstructedHtml (componentStep st c))"
  using assms
  by (auto simp: componentStep_def stringReplace_keeps split: option.splits)

lemma widgetStep_keeps:
  assumes "isWigohToken t" "isWidgetToken (fst w)" "sublist t (reconstructedHtml st)"
  shows "sublist t (reconstructedHtml (widgetStep st w))"
proof -
  obtain k v where w: "w = (k, v)" by (cases w)
  from assms(2) w have k: "isWidgetToken k" by simp
  from regexReplaceAll_keeps[OF isWigohToken_brace[OF assms(1)] isWidgetToken_brace[OF k]
      wigoh_not_widget[OF assms(1) k] assms(3)]
  show ?thesis using assms(3) by (simp add: widgetStep_def w)
qed

lemma component_loop_keeps:
  "isWigohToken t \<Longrightarrow> sublist t (reconstructedHtml st) \<Longrightarrow>
     sublist t (reconstructedHtml (foldl componentStep st cs))"
  by (induction cs arbitrary: st) (auto simp: componentStep_keeps)

lemma widget_loop_keeps:
  "isWigohToken t \<Longrightarrow> list_all (\<lambda>w. isWidgetToken (fst w)) ws \<Longrightarrow>
     sublist t (reconstructedHtml st) \<Longrightarrow>
     sublist t (reconstructedHtml (foldl widgetStep st ws))"
  by (induction ws arbitrary: st) (auto simp: widgetStep_keeps)

text \<open>What one turn of the component loop does to the document.\<close>

lemma splitAtFirst_first:
  "splitAtFirst k pre s = Some (b, a) \<Longrightarrow>
     \<exists>b1. b = pre @ b1 \<and> s = b1 @ k @ a
          \<and> (\<forall>b2 a2. s = b2 @ k @ a2 \<longrightarrow> length b1 \<le> length b2)"
proof (induction k pre s rule: splitAtFirst.induct)
  case (1 k pre s)
  show ?case
  proof (cases "prefix k s")
    case True
    with "1.prems" have "b = pre" "s = k @ a"
      by (subst (asm) splitAtFirst.simps, auto simp: prefix_def)+
    then show ?thesis by (intro exI[of _ "[]"]) simp
  next
    case False
    with "1.prems" obtain c cs where cs: "s = c # cs" "splitAtFirst k (pre @ [c]) cs = Some (b, a)"
      by (subst (asm) splitAtFirst.simps) (auto split: list.splits)
    from "1.IH"[OF False cs(1) cs(2)] obtain b1 where
      b1: "b = (pre @ [c]) @ b1" "cs = b1 @ k @ a"
      "\<forall>b2 a2. cs = b2 @ k @ a2 \<longrightarrow> length b1 \<le> length b2" by blast
    have "length (c # b1) \<le> length b2" if "s = b2 @ k @ a2" for b2 a2
    proof (cases b2)
      case Nil
      with that False show ?thesis by (simp add: prefix_def)
    next
      case (Cons d b3)
      with that cs(1) have "cs = b3 @ k @ a2" by simp
      with b1(3) have "length b1 \<le> length b3" by blast
      with Cons show ?thesis by simp
    qed
    with b1(1,2) cs(1) show ?thesis by (intro exI[of _ "c # b1"]) simp
  qed
qed

lemma splitAtFirst_finds:
  "sublist k s \<Longrightarrow> \<exists>b a. splitAtFirst k pre s = Some (b, a)"
proof (induction s arbitrary: pre)
  case Nil
  then show ?case by (subst splitAtFirst.simps) simp
next
  case (Cons c cs)
  show ?case
  proof (cases "prefix k (c # cs)")
    case True
    then show ?thesis by (subst splitAtFirst.simps) simp
  next
    case False
    with Cons.prems have "sublist k cs" by (simp add: sublist_Cons_right)
    from Cons.IH[OF this, of "pre @ [c]"] False show ?thesis
      by (subst splitAtFirst.simps) simp
  qed
qed

lemma stringReplace_first:
  assumes "sublist k s"
  shows "\<exists>b a. s = b @ k @ a \<and> (\<forall>b2 a2. s = b2 @ k @ a2 \<longrightarrow> length b \<le> length b2)
            \<and> stringReplace s k r = b @ getSubstitution k b a r @ a"
proof -
  from splitAtFirst_finds[OF assms, of "[]"] obtain b a where
    s: "splitAtFirst k [] s = Some (b, a)" by blast
  from splitAtFirst_first[OF s] have "s = b @ k @ a"
    "\<forall>b2 a2. s = b2 @ k @ a2 \<longrightarrow> length b \<le> length b2" by auto
  moreover have "stringReplace s k r = b @ getSubstitution k b a r @ a"
    by (simp add: stringReplace_def s)
  ultimately show ?thesis by blast
qed

lemma getSubstitution_verbatim:
  "CHR ''$'' \<notin> set r \<Longrightarrow> getSubstitution m b a r = r"
  using getSubstitution_plain[of r m b a "[]"] by simp

lemma componentStep_turn:
  assumes "markup \<noteq> []" and "wigIdMatch markup = Some t"
    and "sublist t (reconstructedHtml st)"
  shows "\<exists>b a x. reconstructedHtml st = b @ t @ a
            \<and> (\<forall>b2 a2. reconstructedHtml st = b2 @ t @ a2 \<longrightarrow> length b \<le> length b2)
            \<and> componentStep st (Some markup)
                = st\<lparr>reconstructedHtml := b @ x @ a,
                     componentsReplaced := Suc (componentsReplaced st)\<rparr>
            \<and> sublist t x \<and> (CHR ''$'' \<notin> set markup \<longrightarrow> x = markup)"
proof -
  from stringReplace_first[OF assms(3), of markup] obtain b a where
    ba: "reconstructedHtml st = b @ t @ a"
    "\<forall>b2 a2. reconstructedHtml st = b2 @ t @ a2 \<longrightarrow> length b \<le> length b2"
    "stringReplace (reconstructedHtml st) t markup = b @ getSubstitution t b a markup @ a"
    by blast
  from wigIdMatch_Some[OF assms(2)] obtain X Y where
    tw: "isWigohToken t" and h: "markup = X @ ''wig-id='' @ [dq] @ t @ [dq] @ Y" by blast
  have k: "sublist t (getSubstitution t b a markup)"
    by (rule getSubstitution_keeps_marker[OF h isWigohToken_no_dollar[OF tw]])
  have c: "componentStep st (Some markup)
      = st\<lparr>reconstructedHtml := b @ getSubstitution t b a markup @ a,
           componentsReplaced := Suc (componentsReplaced st)\<rparr>"
    using assms by (simp add: componentStep_def jsIncludes_def ba(3))
  show ?thesis
    using ba(1,2) c k getSubstitution_verbatim[of markup t b a]
    by (intro exI[of _ b] exI[of _ a] exI[of _ "getSubstitution t b a markup"]) simp
qed

subsection \<open>Reconstructor\<close>

text \<open>
  Claim C2, as stated, fails.  With the template \<^verbatim>\<open><div>{{wigoh-id-001}}</div>\<close>, the
  component \<^verbatim>\<open><section wig-id="{{wigoh-id-001}}">{{widget-1}}</section>\<close> and the widget
  \<^verbatim>\<open>{{widget-1}}\<close> with markup \<^verbatim>\<open><b>Hi</b>\<close> the token \<^verbatim>\<open>{{wigoh-id-001}}\<close> is covered, and
  it is still in the output: the component's markup carries it in its \<open>wig-id\<close> attribute.
\<close>

theorem reconstructHtml_covered_token_stays:
  "reconstructHtml (Some ''<div>{{wigoh-id-001}}</div>'')
     [Some (''<section wig-id='' @ [dq] @ ''{{wigoh-id-001}}'' @ [dq] @ ''>{{widget-1}}</section>'')]
     [(''{{widget-1}}'', ''<b>Hi</b>'')]
   = Inr \<lparr>resultHtml = ''<div><section wig-id='' @ [dq] @ ''{{wigoh-id-001}}'' @ [dq]
                          @ ''><b>Hi</b></section></div>'',
          totalComponents = 1, totalWidgetsReplaced = 1\<rparr>
   \<and> sublist ''{{wigoh-id-001}}''
        (''<div><section wig-id='' @ [dq] @ ''{{wigoh-id-001}}'' @ [dq]
           @ ''><b>Hi</b></section></div>'')"
  by code_simp

text \<open>
  Claim C2, amended.  Take any run of \<open>reconstructHtml\<close> and, in it, the turn of a
  component whose markup names the token \<open>t\<close> in its \<open>wig-id\<close> attribute; the document
  the turn finds is the one the run would return if it stopped there.  If \<open>t\<close> occurs in
  that document, its first occurrence is replaced and the count of components goes up by
  one: by the component's markup as it is when the markup has no dollar sign, and in
  every case by text that carries \<open>t\<close>, so that \<open>t\<close> is still in the output of the run.
  If \<open>t\<close> does not occur, the turn changes nothing.  And every component token of the
  template, covered by a component or not, is still literally present in the output,
  when the keys of the widget rows are widget tokens.
\<close>

theorem reconstructHtml_component_turn:
  assumes "optimizedComponents = before @ Some markup # rest"
    and "markup \<noteq> []" and "wigIdMatch markup = Some t"
    and "list_all (\<lambda>w. isWidgetToken (fst w)) widgetRows"
  shows "\<exists>r0 r1 r.
       reconstructHtml (Some template) before [] = Inr r0
     \<and> reconstructHtml (Some template) (before @ [Some markup]) [] = Inr r1
     \<and> reconstructHtml (Some template) optimizedComponents widgetRows = Inr r
     \<and> (if sublist t (resultHtml r0) then
           \<exists>b a x. resultHtml r0 = b @ t @ a
             \<and> (\<forall>b2 a2. resultHtml r0 = b2 @ t @ a2 \<longrightarrow> length b \<le> length b2)
             \<and> resultHtml r1 = b @ x @ a
             \<and> (CHR ''$'' \<notin> set markup \<longrightarrow> x = markup)
             \<and> sublist t x
             \<and> totalComponents r1 = Suc (totalComponents r0)
             \<and> sublist t (resultHtml r)
         else r1 = r0)
     \<and> (\<forall>u. isWigohToken u \<and> sublist u template \<longrightarrow> sublist u (resultHtml r))"
proof -
  define init where "init = \<lparr>reconstructedHtml = template, componentsReplaced = 0,
    widgetsReplaced = 0\<rparr>"
  define st0 where "st0 = foldl componentStep init before"
  define st1 where "st1 = componentStep st0 (Some markup)"
  define st2 where "st2 = foldl widgetStep (foldl componentStep st1 rest) widgetRows"
  define r0 where "r0 = \<lparr>resultHtml = reconstructedHtml st0,
    totalComponents = componentsReplaced st0, totalWidgetsReplaced = widgetsReplaced st0\<rparr>"
  define r1 where "r1 = \<lparr>resultHtml = reconstructedHtml st1,
    totalComponents = componentsReplaced st1, totalWidgetsReplaced = widgetsReplaced st1\<rparr>"
  define r where "r = \<lparr>resultHtml = reconstructedHtml st2,
    totalComponents = componentsReplaced st2, totalWidgetsReplaced = widgetsReplaced st2\<rparr>"
  have e0: "reconstructHtml (Some template) before [] = Inr r0"
    by (simp add: reconstructHtml_def Let_def r0_def st0_def init_def)
  have e1: "reconstructHtml (Some template) (before @ [Some markup]) [] = Inr r1"
    by (simp add: reconstructHtml_def Let_def r1_def st1_def st0_def init_def)
  have e: "reconstructHtml (Some template) optimizedComponents widgetRows = Inr r"
    by (simp add: reconstructHtml_def Let_def r_def st2_def st1_def st0_def init_def assms(1))
  from wigIdMatch_Some[OF assms(3)] have tw: "isWigohToken t" by blast
  have later: "sublist u (resultHtml r)"
    if "isWigohToken u" "sublist u (reconstructedHtml st1)" for u
    using that assms(4)
    by (simp add: r_def st2_def widget_loop_keeps component_loop_keeps)
  have all: "sublist u (resultHtml r)" if u: "isWigohToken u" "sublist u template" for u
  proof -
    from u have "sublist u (reconstructedHtml st0)"
      by (simp add: st0_def init_def component_loop_keeps)
    with u(1) have "sublist u (reconstructedHtml st1)"
      unfolding st1_def by (rule componentStep_keeps)
    with u(1) show ?thesis by (rule later)
  qed
  have turn: "if sublist t (resultHtml r0) then
           \<exists>b a x. resultHtml r0 = b @ t @ a
             \<and> (\<forall>b2 a2. resultHtml r0 = b2 @ t @ a2 \<longrightarrow> length b \<le> length b2)
             \<and> resultHtml r1 = b @ x @ a
             \<and> (CHR ''$'' \<notin> set markup \<longrightarrow> x = markup)
             \<and> sublist t x
             \<and> totalComponents r1 = Suc (totalComponents r0)
             \<and> sublist t (resultHtml r)
         else r1 = r0"
  proof (cases "sublist t (reconstructedHtml st0)")
    case True
    from componentStep_turn[OF assms(2,3) True] obtain b a x where
      x: "reconstructedHtml st0 = b @ t @ a"
      "\<forall>b2 a2. reconstructedHtml st0 = b2 @ t @ a2 \<longrightarrow> length b \<le> length b2"
      "st1 = st0\<lparr>reconstructedHtml := b @ x @ a,
                  componentsReplaced := Suc (componentsReplaced st0)\<rparr>"
      "sublist t x" "CHR ''$'' \<notin> set markup \<longrightarrow> x = markup"
      unfolding st1_def by blast
    from x(3,4) have "sublist t (reconstructedHtml st1)" by (simp add: sublist_middle)
    with tw have "sublist t (resultHtml r)" by (rule later)
    with x True show ?thesis
      by (simp add: r0_def r1_def) blast
  next
    case False
    with assms(2,3) have "st1 = st0"
      by (simp add: st1_def componentStep_def jsIncludes_def)
    with False show ?thesis by (simp add: r0_def r1_def)
  qed
  from e0 e1 e turn all show ?thesis by blast
qed


theorem reconstructHtml_component_turn_witness:
  \<open>[Some ''<section wig-id="{{wigoh-id-001}}">{{widget-1}}</section>''] = [] @ Some ''<section wig-id="{{wigoh-id-001}}">{{widget-1}}</section>'' # []
   \<and> ''<section wig-id="{{wigoh-id-001}}">{{widget-1}}</section>'' \<noteq> []
   \<and> wigIdMatch ''<section wig-id="{{wigoh-id-001}}">{{widget-1}}</section>'' = Some ''{{wigoh-id-001}}''
   \<and> list_all (\<lambda>w. isWidgetToken (fst w)) [(''{{widget-1}}'', ''<b>Hi</b>'')]
   \<and> reconstructHtml (Some ''<div>{{wigoh-id-001}}{{wigoh-id-002}}</div>'') [] []
       = Inr \<lparr>resultHtml = ''<div>{{wigoh-id-001}}{{wigoh-id-002}}</div>'', totalComponents = 0, totalWidgetsReplaced = 0\<rparr>
   \<and> sublist ''{{wigoh-id-001}}'' ''<div>{{wigoh-id-001}}{{wigoh-id-002}}</div>''
   \<and> reconstructHtml (Some ''<div>{{wigoh-id-001}}{{wigoh-id-002}}</div>'') ([] @ [Some ''<section wig-id="{{wigoh-id-001}}">{{widget-1}}</section>'']) []
       = Inr \<lparr>resultHtml = ''<div><section wig-id="{{wigoh-id-001}}">{{widget-1}}</section>{{wigoh-id-002}}</div>'',
              totalComponents = 1, totalWidgetsReplaced = 0\<rparr>
   \<and> reconstructHtml (Some ''<div>{{wigoh-id-001}}{{wigoh-id-002}}</div>'') [Some ''<section wig-id="{{wigoh-id-001}}">{{widget-1}}</section>''] [(''{{widget-1}}'', ''<b>Hi</b>'')]
       = Inr \<lparr>resultHtml = ''<div><section wig-id="{{wigoh-id-001}}"><b>Hi</b></section>{{wigoh-id-002}}</div>'',
              totalComponents = 1, totalWidgetsReplaced = 1\<rparr>
   \<and> (\<exists>b a. ''<div>{{wigoh-id-001}}{{wigoh-id-002}}</div>'' = b @ ''{{wigoh-id-001}}'' @ a
          \<and> ''<div><section wig-id="{{wigoh-id-001}}">{{widget-1}}</section>{{wigoh-id-002}}</div>'' = b @ ''<section wig-id="{{wigoh-id-001}}">{{widget-1}}</section>'' @ a)
   \<and> sublist ''{{wigoh-id-001}}'' ''<div><section wig-id="{{wigoh-id-001}}"><b>Hi</b></section>{{wigoh-id-002}}</div>''
   \<and> isWigohToken ''{{wigoh-id-002}}''
   \<and> sublist ''{{wigoh-id-002}}'' ''<div>{{wigoh-id-001}}{{wigoh-id-002}}</div>''
   \<and> sublist ''{{wigoh-id-002}}'' ''<div><section wig-id="{{wigoh-id-001}}"><b>Hi</b></section>{{wigoh-id-002}}</div>''\<close>
proof -
  define T where \<open>T = ''<div>{{wigoh-id-001}}{{wigoh-id-002}}</div>''\<close>
  define M where \<open>M = ''<section wig-id="{{wigoh-id-001}}">{{widget-1}}</section>''\<close>
  define D1 where \<open>D1 = ''<div><section wig-id="{{wigoh-id-001}}">{{widget-1}}</section>{{wigoh-id-002}}</div>''\<close>
  define D2 where \<open>D2 = ''<div><section wig-id="{{wigoh-id-001}}"><b>Hi</b></section>{{wigoh-id-002}}</div>''\<close>
  note defs = T_def M_def D1_def D2_def
  have c: \<open>[Some M] = [] @ Some M # []\<close> by simp
  have m1: \<open>M \<noteq> []\<close> by (simp add: M_def)
  have m2: \<open>wigIdMatch M = Some ''{{wigoh-id-001}}''\<close> unfolding defs by code_simp
  have m3: \<open>CHR ''$'' \<notin> set M\<close> by (simp add: M_def)
  have w: \<open>list_all (\<lambda>w. isWidgetToken (fst w)) [(''{{widget-1}}'', ''<b>Hi</b>'')]\<close> by code_simp
  have e0: \<open>reconstructHtml (Some T) [] []
       = Inr \<lparr>resultHtml = T, totalComponents = 0, totalWidgetsReplaced = 0\<rparr>\<close>
    by (simp add: reconstructHtml_def)
  have s0: \<open>sublist ''{{wigoh-id-001}}'' T\<close> unfolding defs by code_simp
  have e1: \<open>reconstructHtml (Some T) ([] @ [Some M]) []
       = Inr \<lparr>resultHtml = D1, totalComponents = 1, totalWidgetsReplaced = 0\<rparr>\<close>
    unfolding defs by code_simp
  have e2: \<open>reconstructHtml (Some T) [Some M] [(''{{widget-1}}'', ''<b>Hi</b>'')]
       = Inr \<lparr>resultHtml = D2, totalComponents = 1, totalWidgetsReplaced = 1\<rparr>\<close>
    unfolding defs by code_simp
  have u: \<open>isWigohToken ''{{wigoh-id-002}}''\<close> \<open>sublist ''{{wigoh-id-002}}'' T\<close>
    unfolding defs by code_simp+
  from reconstructHtml_component_turn[OF c m1 m2 w, of T]
  obtain r0 r1 r where
    r: \<open>reconstructHtml (Some T) [] [] = Inr r0\<close>
       \<open>reconstructHtml (Some T) ([] @ [Some M]) [] = Inr r1\<close>
       \<open>reconstructHtml (Some T) [Some M] [(''{{widget-1}}'', ''<b>Hi</b>'')] = Inr r\<close>
    and turn: \<open>if sublist ''{{wigoh-id-001}}'' (resultHtml r0) then
           \<exists>b a x. resultHtml r0 = b @ ''{{wigoh-id-001}}'' @ a
             \<and> (\<forall>b2 a2. resultHtml r0 = b2 @ ''{{wigoh-id-001}}'' @ a2 \<longrightarrow> length b \<le> length b2)
             \<and> resultHtml r1 = b @ x @ a
             \<and> (CHR ''$'' \<notin> set M \<longrightarrow> x = M)
             \<and> sublist ''{{wigoh-id-001}}'' x
             \<and> totalComponents r1 = Suc (totalComponents r0)
             \<and> sublist ''{{wigoh-id-001}}'' (resultHtml r)
         else r1 = r0\<close>
    and keep: \<open>\<forall>u. isWigohToken u \<and> sublist u T \<longrightarrow> sublist u (resultHtml r)\<close>
    by (elim exE conjE)
  from r(1) e0 have h0: \<open>resultHtml r0 = T\<close> by auto
  from r(2) e1 have h1: \<open>resultHtml r1 = D1\<close> by auto
  from r(3) e2 have h2: \<open>resultHtml r = D2\<close> by auto
  from turn s0 obtain b a x where
    x: \<open>T = b @ ''{{wigoh-id-001}}'' @ a\<close> \<open>D1 = b @ x @ a\<close> \<open>CHR ''$'' \<notin> set M \<longrightarrow> x = M\<close>
      \<open>sublist ''{{wigoh-id-001}}'' D2\<close>
    unfolding h0 h1 h2 by (simp only: if_True) blast
  from x(3) m3 have \<open>x = M\<close> by blast
  with x(1,2) have split: \<open>\<exists>b a. T = b @ ''{{wigoh-id-001}}'' @ a \<and> D1 = b @ M @ a\<close>
    by blast
  from keep u have k: \<open>sublist ''{{wigoh-id-002}}'' D2\<close> unfolding h2 by blast
  from c m1 m2 w e0 s0 e1 e2 split x(4) u k show ?thesis
    unfolding defs by (intro conjI)
qed

text \<open>
  Claim C3.  The widget pass hands the fragment markup to \<open>replace\<close> as a replacement
  string, so \<^verbatim>\<open>$$\<close>, \<^verbatim>\<open>$&\<close>, \<^verbatim>\<open>$`\<close> and \<^verbatim>\<open>$'\<close> in the markup are expanded: the fragment
  \<^verbatim>\<open><span>$$$</span>\<close> is put into the document as \<^verbatim>\<open><span>$$</span>\<close>, not verbatim.  The
  count of occurrences is the one reported.
\<close>

theorem widget_pass_expands_dollar_patterns:
  "reconstructHtml (Some ''<div>{{widget-1}}</div>'') []
     [(''{{widget-1}}'', ''<span>$$$</span>'')]
   = Inr \<lparr>resultHtml = ''<div><span>$$</span></div>'',
          totalComponents = 0, totalWidgetsReplaced = 1\<rparr>"
  by code_simp

subsection \<open>ComponentExtractor: the named targets\<close>

lemma placeholderIdOf_first:
  "placeholderIdOf (Suc 0) = ''wigoh-id-001''"
  "placeholderIdOf (Suc (Suc 0)) = ''wigoh-id-002''"
  "placeholderIdOf (Suc (Suc (Suc 0))) = ''wigoh-id-003''"
  by code_simp+

lemma processTarget_adds:
  "\<exists>c. extractedComponents (processTarget st t) = extractedComponents st @ [c]
       \<and> ctype c = TargetId \<and> originalId c = t
       \<and> placeholderId c = placeholderIdOf (placeholderCounter st)"
  by (simp add: processTarget_def Let_def)

lemma processTarget_counter:
  "placeholderCounter (processTarget st t) = Suc (placeholderCounter st)"
  by (simp add: processTarget_def Let_def)

text \<open>
  Claim C7.  When no element of the document has the target's id, the target's turn
  leaves the document as it is, advances the counter, so the token number is used up, and
  records a fragment with \<open>found = false\<close> under that number.  The fragment carries the
  synthesized "not found" markup: a page that names the target and the token and says
  that the component was not found, in the list returned, and the red box alone in the
  row saved.
\<close>

theorem processTarget_not_found:
  assumes \<open>concat (map (selectAll (hasId targetId)) (doc st)) = []\<close>
    and \<open>pid = placeholderIdOf (placeholderCounter st)\<close>
  shows \<open>doc (processTarget st targetId) = doc st
     \<and> placeholderCounter (processTarget st targetId) = Suc (placeholderCounter st)
     \<and> processedSections (processTarget st targetId) = processedSections st
     \<and> extractedComponents (processTarget st targetId)
         = extractedComponents st @
             [\<lparr>placeholderId = pid, originalId = targetId, ctype = TargetId, found = False,
               componentHtml =
                 ''<!DOCTYPE html>'' @ [nl] @
                 ''<html lang="en">'' @ [nl] @
                 ''<head>'' @ [nl] @
                 ''    <meta charset="UTF-8">'' @ [nl] @
                 ''    <meta name="viewport" content="width=device-width, initial-scale=1.0">'' @ [nl] @
                 ''    <title>Component Not Found: '' @ targetId @ ''</title>'' @ [nl] @
                 ''</head>'' @ [nl] @
                 ''<body>'' @ [nl] @
                 ''    <!-- Placeholder ID: '' @ pid @ '' -->'' @ [nl] @
                 ''    <!-- Original ID: '' @ targetId @ '' -->'' @ [nl] @
                 ''    <!-- STATUS: NOT FOUND -->'' @ [nl] @
                 ''    <div style="padding: 20px; border: 2px dashed red; background: #fff3f3;">'' @ [nl] @
                 ''        <h2 style="color: red;">Component Not Found</h2>'' @ [nl] @
                 ''        <p><strong>Original ID:</strong> '' @ targetId @ ''</p>'' @ [nl] @
                 ''        <p><strong>Placeholder ID:</strong> '' @ pid @ ''</p>'' @ [nl] @
                 ''        <p>This component was not found in the source HTML.</p>'' @ [nl] @
                 ''    </div>'' @ [nl] @
                 ''</body>'' @ [nl] @
                 ''</html>''\<rparr>]
     \<and> savedComponents (processTarget st targetId)
         = savedComponents st @
             [\<lparr>placeholder_id = pid, original_id = targetId, saved_type = TargetId,
               html_content =
                 ''<div style="padding: 20px; border: 2px dashed red; background: #fff3f3;">'' @ [nl] @
                 ''  <h2 style="color: red;">Component Not Found</h2>'' @ [nl] @
                 ''  <p><strong>Original ID:</strong> '' @ targetId @ ''</p>'' @ [nl] @
                 ''  <p><strong>Placeholder ID:</strong> '' @ pid @ ''</p>'' @ [nl] @
                 ''  <p>This component was not found in the source HTML.</p>'' @ [nl] @
                 ''</div>''\<rparr>]\<close>
  using assms
  by (simp add: processTarget_def Let_def createNotFoundComponentHTML_def notFoundHtml_def)

theorem processTarget_not_found_witness:
  \<open>concat (map (selectAll (hasId ''pinnedTopRight'')) nestedSectionsDoc) = []
   \<and> ''wigoh-id-002'' = placeholderIdOf 2
   \<and> doc (processTarget
        \<lparr>doc = nestedSectionsDoc, placeholderCounter = 2, extractedComponents = [],
         savedComponents = [], processedSections = []\<rparr> ''pinnedTopRight'') = nestedSectionsDoc
   \<and> placeholderCounter (processTarget
        \<lparr>doc = nestedSectionsDoc, placeholderCounter = 2, extractedComponents = [],
         savedComponents = [], processedSections = []\<rparr> ''pinnedTopRight'') = 3
   \<and> extractedComponents (processTarget
        \<lparr>doc = nestedSectionsDoc, placeholderCounter = 2, extractedComponents = [],
         savedComponents = [], processedSections = []\<rparr> ''pinnedTopRight'')
       = [\<lparr>placeholderId = ''wigoh-id-002'', originalId = ''pinnedTopRight'', ctype = TargetId,
           found = False,
           componentHtml =
             ''<!DOCTYPE html>'' @ [nl] @
             ''<html lang="en">'' @ [nl] @
             ''<head>'' @ [nl] @
             ''    <meta charset="UTF-8">'' @ [nl] @
             ''    <meta name="viewport" content="width=device-width, initial-scale=1.0">'' @ [nl] @
             ''    <title>Component Not Found: pinnedTopRight</title>'' @ [nl] @
             ''</head>'' @ [nl] @
             ''<body>'' @ [nl] @
             ''    <!-- Placeholder ID: wigoh-id-002 -->'' @ [nl] @
             ''    <!-- Original ID: pinnedTopRight -->'' @ [nl] @
             ''    <!-- STATUS: NOT FOUND -->'' @ [nl] @
             ''    <div style="padding: 20px; border: 2px dashed red; background: #fff3f3;">'' @ [nl] @
             ''        <h2 style="color: red;">Component Not Found</h2>'' @ [nl] @
             ''        <p><strong>Original ID:</strong> pinnedTopRight</p>'' @ [nl] @
             ''        <p><strong>Placeholder ID:</strong> wigoh-id-002</p>'' @ [nl] @
             ''        <p>This component was not found in the source HTML.</p>'' @ [nl] @
             ''    </div>'' @ [nl] @
             ''</body>'' @ [nl] @
             ''</html>''\<rparr>]
   \<and> savedComponents (processTarget
        \<lparr>doc = nestedSectionsDoc, placeholderCounter = 2, extractedComponents = [],
         savedComponents = [], processedSections = []\<rparr> ''pinnedTopRight'')
       = [\<lparr>placeholder_id = ''wigoh-id-002'', original_id = ''pinnedTopRight'',
           saved_type = TargetId,
           html_content =
             ''<div style="padding: 20px; border: 2px dashed red; background: #fff3f3;">'' @ [nl] @
             ''  <h2 style="color: red;">Component Not Found</h2>'' @ [nl] @
             ''  <p><strong>Original ID:</strong> pinnedTopRight</p>'' @ [nl] @
             ''  <p><strong>Placeholder ID:</strong> wigoh-id-002</p>'' @ [nl] @
             ''  <p>This component was not found in the source HTML.</p>'' @ [nl] @
             ''</div>''\<rparr>]\<close>
proof -
  define st where "st = \<lparr>doc = nestedSectionsDoc, placeholderCounter = 2,
    extractedComponents = [], savedComponents = [], processedSections = []\<rparr>"
  have h: "concat (map (selectAll (hasId ''pinnedTopRight'')) nestedSectionsDoc) = []"
    by (simp add: nestedSectionsDoc_def hasId_def)
  then have h': "concat (map (selectAll (hasId ''pinnedTopRight'')) (doc st)) = []"
    by (simp add: st_def)
  have p: "''wigoh-id-002'' = placeholderIdOf 2"
    using placeholderIdOf_first(2) by (simp add: numeral_2_eq_2)
  then have p': "''wigoh-id-002'' = placeholderIdOf (placeholderCounter st)"
    by (simp add: st_def)
  from processTarget_not_found[OF h' p'] h p show ?thesis
    unfolding st_def[symmetric] by (simp add: st_def)
qed

lemma afterTargets_components:
  "\<exists>c1 c2 c3. extractedComponents (afterTargets d) = [c1, c2, c3]
     \<and> map ctype [c1, c2, c3] = [TargetId, TargetId, TargetId]
     \<and> map originalId [c1, c2, c3] = [''pinnedTopLeft'', ''pinnedTopRight'', ''pinnedBottomLeft'']
     \<and> map placeholderId [c1, c2, c3] = [''wigoh-id-001'', ''wigoh-id-002'', ''wigoh-id-003'']"
proof -
  define s0 where "s0 = \<lparr>doc = d, placeholderCounter = Suc 0, extractedComponents = [],
    savedComponents = [], processedSections = []\<rparr>"
  define s1 where "s1 = processTarget s0 ''pinnedTopLeft''"
  define s2 where "s2 = processTarget s1 ''pinnedTopRight''"
  define s3 where "s3 = processTarget s2 ''pinnedBottomLeft''"
  have a: "afterTargets d = s3"
    by (simp add: afterTargets_def targetIds_def s3_def s2_def s1_def s0_def)
  have n: "placeholderCounter s0 = Suc 0" "placeholderCounter s1 = Suc (Suc 0)"
    "placeholderCounter s2 = Suc (Suc (Suc 0))"
    by (simp_all add: s0_def s1_def s2_def processTarget_counter)
  from processTarget_adds[of s0 "''pinnedTopLeft''"] obtain c1 where
    c1: "extractedComponents s1 = [c1]" "ctype c1 = TargetId" "originalId c1 = ''pinnedTopLeft''"
    "placeholderId c1 = ''wigoh-id-001''"
    unfolding s1_def[symmetric] n placeholderIdOf_first by (auto simp: s0_def)
  from processTarget_adds[of s1 "''pinnedTopRight''"] obtain c2 where
    c2: "extractedComponents s2 = [c1, c2]" "ctype c2 = TargetId"
    "originalId c2 = ''pinnedTopRight''" "placeholderId c2 = ''wigoh-id-002''"
    unfolding s2_def[symmetric] n placeholderIdOf_first c1(1) by auto
  from processTarget_adds[of s2 "''pinnedBottomLeft''"] obtain c3 where
    c3: "extractedComponents s3 = [c1, c2, c3]" "ctype c3 = TargetId"
    "originalId c3 = ''pinnedBottomLeft''" "placeholderId c3 = ''wigoh-id-003''"
    unfolding s3_def[symmetric] n placeholderIdOf_first c2(1) by auto
  from c1 c2 c3 show ?thesis unfolding a by auto
qed

lemma afterTargets_counter: "placeholderCounter (afterTargets d) = 4"
  by (simp add: afterTargets_def targetIds_def processTarget_counter)

lemma sectionStep_adds:
  "\<exists>new. extractedComponents (sectionStep st e) = extractedComponents st @ new
     \<and> list_all (\<lambda>c. ctype c = Section
                      \<and> placeholderId c = placeholderIdOf (placeholderCounter st)) new
     \<and> placeholderCounter st \<le> placeholderCounter (sectionStep st e)"
proof -
  obtain index path isNested n where e: "e = (index, path, isNested, n)" by (cases e)
  show ?thesis by (cases n) (auto simp: e sectionStep_def Let_def)
qed

lemma section_loop_adds:
  "\<exists>new. extractedComponents (foldl sectionStep st es) = extractedComponents st @ new
     \<and> list_all (\<lambda>c. ctype c = Section
                      \<and> (\<exists>n\<ge>placeholderCounter st. placeholderId c = placeholderIdOf n)) new"
proof (induction es arbitrary: st)
  case Nil
  show ?case by simp
next
  case (Cons e es)
  from sectionStep_adds[of st e] obtain new1 where
    n1: "extractedComponents (sectionStep st e) = extractedComponents st @ new1"
    "list_all (\<lambda>c. ctype c = Section
                    \<and> placeholderId c = placeholderIdOf (placeholderCounter st)) new1"
    "placeholderCounter st \<le> placeholderCounter (sectionStep st e)" by blast
  from Cons.IH[of "sectionStep st e"] obtain new2 where
    n2: "extractedComponents (foldl sectionStep (sectionStep st e) es)
           = extractedComponents (sectionStep st e) @ new2"
    "list_all (\<lambda>c. ctype c = Section
        \<and> (\<exists>n\<ge>placeholderCounter (sectionStep st e). placeholderId c = placeholderIdOf n)) new2"
    by blast
  have "ctype c = Section \<and> (\<exists>n\<ge>placeholderCounter st. placeholderId c = placeholderIdOf n)"
    if "c \<in> set (new1 @ new2)" for c
  proof (cases "c \<in> set new1")
    case True
    with n1(2) show ?thesis by (auto simp: list_all_iff)
  next
    case False
    with that n2(2) obtain n where "ctype c = Section"
      "placeholderCounter (sectionStep st e) \<le> n" "placeholderId c = placeholderIdOf n"
      by (auto simp: list_all_iff)
    with n1(3) show ?thesis by (meson order_trans)
  qed
  then have "list_all (\<lambda>c. ctype c = Section
          \<and> (\<exists>n\<ge>placeholderCounter st. placeholderId c = placeholderIdOf n)) (new1 @ new2)"
    unfolding list_all_iff by blast
  with n1(1) n2(1) show ?case by (intro exI[of _ "new1 @ new2"]) simp
qed

text \<open>
  Claim C10.  For every document the list of components begins with three fragments of
  kind \<open>target-id\<close>, for \<open>pinnedTopLeft\<close>, \<open>pinnedTopRight\<close> and \<open>pinnedBottomLeft\<close> in this
  order, with the tokens \<open>wigoh-id-001\<close> to \<open>wigoh-id-003\<close>; every fragment after them is
  of kind \<open>section\<close>, and its token number is at least 4.
\<close>

theorem extractComponents_targets_first:
  "\<exists>c1 c2 c3 rest. components (extractComponents d) = c1 # c2 # c3 # rest
     \<and> map ctype [c1, c2, c3] = [TargetId, TargetId, TargetId]
     \<and> map originalId [c1, c2, c3] = [''pinnedTopLeft'', ''pinnedTopRight'', ''pinnedBottomLeft'']
     \<and> map placeholderId [c1, c2, c3] = [''wigoh-id-001'', ''wigoh-id-002'', ''wigoh-id-003'']
     \<and> list_all (\<lambda>c. ctype c = Section \<and> (\<exists>n\<ge>4. placeholderId c = placeholderIdOf n)) rest"
proof -
  from afterTargets_components[of d] obtain c1 c2 c3 where
    c: "extractedComponents (afterTargets d) = [c1, c2, c3]"
    "map ctype [c1, c2, c3] = [TargetId, TargetId, TargetId]"
    "map originalId [c1, c2, c3] = [''pinnedTopLeft'', ''pinnedTopRight'', ''pinnedBottomLeft'']"
    "map placeholderId [c1, c2, c3] = [''wigoh-id-001'', ''wigoh-id-002'', ''wigoh-id-003'']"
    by (elim exE conjE)
  from section_loop_adds[of "afterTargets d"] obtain rest where
    r: "extractedComponents (afterSections (afterTargets d))
          = extractedComponents (afterTargets d) @ rest"
    "list_all (\<lambda>c. ctype c = Section \<and> (\<exists>n\<ge>4. placeholderId c = placeholderIdOf n)) rest"
    unfolding afterSections_def afterTargets_counter by blast
  have "components (extractComponents d) = c1 # c2 # c3 # rest"
    by (simp add: extractComponents_def Let_def r(1) c(1))
  with c(2-4) r(2) show ?thesis by (intro exI conjI)
qed

subsection \<open>ComponentExtractor: the sections\<close>

lemma serializeNode_Element:
  "serializeNode raw (Element name attrs cs) = outerHTML (Element name attrs cs)"
  by (simp add: outerHTML_def)

lemma sublist_concat_member: "x \<in> set xs \<Longrightarrow> sublist x (concat xs)"
proof (induction xs)
  case Nil
  then show ?case by simp
next
  case (Cons y ys)
  then show ?case
  proof (cases "x = y")
    case True
    then show ?thesis by simp
  next
    case False
    with Cons have "sublist x (concat ys)" by simp
    then show ?thesis by (simp add: sublist_append_right)
  qed
qed

lemma sectionsIn_is_Element:
  "(pb, nb, B) \<in> set (sectionsIn path inSec n) \<Longrightarrow> \<exists>name attrs cs. n = Element name attrs cs"
  by (cases n) auto

lemma sectionsInList_member:
  "(pb, nb, B) \<in> set (sectionsInList path i inSec cs) \<Longrightarrow>
     \<exists>c p. c \<in> set cs \<and> (pb, nb, B) \<in> set (sectionsIn p inSec c)"
proof (induction cs arbitrary: i)
  case Nil
  then show ?case by simp
next
  case (Cons a cs)
  from Cons.prems have "(pb, nb, B) \<in> set (sectionsIn (path @ [i]) inSec a)
      \<or> (pb, nb, B) \<in> set (sectionsInList path (Suc i) inSec cs)" by simp
  then show ?case
  proof
    assume "(pb, nb, B) \<in> set (sectionsIn (path @ [i]) inSec a)"
    then show ?thesis by (intro exI[of _ a] exI[of _ "path @ [i]"]) simp
  next
    assume "(pb, nb, B) \<in> set (sectionsInList path (Suc i) inSec cs)"
    from Cons.IH[OF this] obtain c p where "c \<in> set cs"
      "(pb, nb, B) \<in> set (sectionsIn p inSec c)" by blast
    then show ?thesis by (intro exI[of _ c] exI[of _ p]) simp
  qed
qed

lemma child_markup_in_parent:
  assumes "c \<in> set cs" and "c = Element n a k" and "name \<notin> set voidElements"
  shows "sublist (outerHTML c) (outerHTML (Element name attrs cs))"
proof -
  have "serializeNode (name \<in> set rawTextElements) c = outerHTML c"
    by (simp add: assms(2) outerHTML_def)
  with assms(1) have "outerHTML c \<in> set (map (serializeNode (name \<in> set rawTextElements)) cs)"
    by force
  then have "sublist (outerHTML c)
               (concat (map (serializeNode (name \<in> set rawTextElements)) cs))"
    by (rule sublist_concat_member)
  then have "sublist (outerHTML c)
      ((''<'' @ name @ serializeAttrs attrs @ ''>'') @
        concat (map (serializeNode (name \<in> set rawTextElements)) cs) @ (''</'' @ name @ ''>''))"
    by (rule sublist_middle)
  then show ?thesis using assms(3) by (simp add: outerHTML_def)
qed

lemma section_markup_in_ancestor:
  "parsed n \<Longrightarrow> (pb, nb, B) \<in> set (sectionsIn path inSec n) \<Longrightarrow>
     sublist (outerHTML B) (outerHTML n)"
proof (induction n arbitrary: path inSec)
  case (Element name attrs cs)
  show ?case
  proof (cases "B = Element name attrs cs")
    case True
    then show ?thesis by simp
  next
    case False
    with Element.prems(2) have "(pb, nb, B) \<in> set (sectionsInList path 0
        (inSec \<or> name = ''section'') cs)"
      by (auto split: if_splits)
    from sectionsInList_member[OF this] obtain c p where
      c: "c \<in> set cs" "(pb, nb, B) \<in> set (sectionsIn p (inSec \<or> name = ''section'') c)"
      by blast
    from sectionsIn_is_Element[OF c(2)] obtain n a k where el: "c = Element n a k" by blast
    from Element.prems(1) c(1) have pc: "parsed c" and nv: "name \<notin> set voidElements"
      by (auto simp: list_all_iff)
    from Element.IH[OF c(1) pc c(2)] have "sublist (outerHTML B) (outerHTML c)" .
    moreover from child_markup_in_parent[OF c(1) el nv]
    have "sublist (outerHTML c) (outerHTML (Element name attrs cs))" .
    ultimately show ?thesis by (rule sublist_order.order_trans)
  qed
qed simp_all

lemma nested_markup_in_section:
  assumes "parsed (Element name attrs cs)"
    and "(pb, nb, B) \<in> set (sectionsInList path i inSec cs)"
  shows "sublist (outerHTML B) (outerHTML (Element name attrs' cs))"
proof -
  from sectionsInList_member[OF assms(2)] obtain c p where
    c: "c \<in> set cs" "(pb, nb, B) \<in> set (sectionsIn p inSec c)" by blast
  from sectionsIn_is_Element[OF c(2)] obtain n a k where el: "c = Element n a k" by blast
  from assms(1) c(1) have pc: "parsed c" and nv: "name \<notin> set voidElements"
    by (auto simp: list_all_iff)
  from section_markup_in_ancestor[OF pc c(2)] have "sublist (outerHTML B) (outerHTML c)" .
  moreover from child_markup_in_parent[OF c(1) el nv]
  have "sublist (outerHTML c) (outerHTML (Element name attrs' cs))" .
  ultimately show ?thesis by (rule sublist_order.order_trans)
qed

lemma sectionsIn_flag:
  "(pb, nb, B) \<in> set (sectionsIn path True n) \<Longrightarrow> nb"
  "(pb, nb, B) \<in> set (sectionsInList path i True ns) \<Longrightarrow> nb"
  by (induction path "True" n and path i "True" ns rule: sectionsIn_sectionsInList.induct)
     (auto split: if_splits)

lemma sectionStep_nested: "sectionStep st (j, pb, True, B) = st"
  by (cases B) (simp_all add: sectionStep_def Let_def)

lemma sections_paths:
  "(p, f, X) \<in> set (sectionsIn path inSec n) \<Longrightarrow> prefix path p"
  "(p, f, X) \<in> set (sectionsInList path i inSec ns) \<Longrightarrow> \<exists>k r. p = path @ k # r \<and> i \<le> k"
proof (induction path inSec n and path i inSec ns rule: sectionsIn_sectionsInList.induct)
  case (1 path inSec name attrs cs)
  then show ?case by (auto split: if_splits)
next
  case (6 path i inSec c cs)
  from "6.prems" have "(p, f, X) \<in> set (sectionsIn (path @ [i]) inSec c)
      \<or> (p, f, X) \<in> set (sectionsInList path (Suc i) inSec cs)" by simp
  then show ?case
  proof
    assume "(p, f, X) \<in> set (sectionsIn (path @ [i]) inSec c)"
    from "6.IH"(1)[OF this] obtain r where "p = (path @ [i]) @ r" by (auto simp: prefix_def)
    then show ?thesis by auto
  next
    assume "(p, f, X) \<in> set (sectionsInList path (Suc i) inSec cs)"
    from "6.IH"(2)[OF this] obtain k r where "p = path @ k # r" "Suc i \<le> k" by blast
    then show ?thesis by (intro exI[of _ k] exI[of _ r]) simp
  qed
qed simp_all

lemma sections_named:
  "(p, f, Element name attrs cs) \<in> set (sectionsIn path inSec n) \<Longrightarrow> name = ''section''"
  "(p, f, Element name attrs cs) \<in> set (sectionsInList path i inSec ns) \<Longrightarrow> name = ''section''"
  by (induction path inSec n and path i inSec ns rule: sectionsIn_sectionsInList.induct)
     (auto split: if_splits)

lemma sections_below:
  "(pa, fa, Element name attrs cs) \<in> set (sectionsIn path inSec n) \<Longrightarrow>
     (pb, fb, B) \<in> set (sectionsIn path inSec n) \<Longrightarrow> strict_prefix pa pb \<Longrightarrow>
     (pb, fb, B) \<in> set (sectionsInList pa 0 True cs)"
  "(pa, fa, Element name attrs cs) \<in> set (sectionsInList path i inSec ns) \<Longrightarrow>
     (pb, fb, B) \<in> set (sectionsInList path i inSec ns) \<Longrightarrow> strict_prefix pa pb \<Longrightarrow>
     (pb, fb, B) \<in> set (sectionsInList pa 0 True cs)"
proof (induction path inSec n and path i inSec ns rule: sectionsIn_sectionsInList.induct)
  case (1 path inSec name' attrs' cs')
  let ?T = "sectionsInList path 0 (inSec \<or> name' = ''section'') cs'"
  have tail_longer: "length path < length q" if "(q, g, Y) \<in> set ?T" for q g Y
    using sections_paths(2)[OF that] by auto
  from "1.prems"(3) have len: "length pa < length pb" 
    by (auto simp: strict_prefix_def prefix_def)
  show ?case
  proof (cases "(pa, fa, Element name attrs cs) \<in> set ?T")
    case True
    from tail_longer[OF True] len have "pb \<noteq> path" by auto
    with "1.prems"(2) have "(pb, fb, B) \<in> set ?T" by (auto split: if_splits)
    from "1.IH"[OF True this "1.prems"(3)] show ?thesis .
  next
    case False
    with "1.prems"(1) have h: "name' = ''section''" "pa = path"
      "Element name attrs cs = Element name' attrs' cs'"
      by (auto split: if_splits)
    from h(2) len have "pb \<noteq> path" by auto
    with "1.prems"(2) have "(pb, fb, B) \<in> set ?T" by (auto split: if_splits)
    with h show ?thesis by simp
  qed
next
  case (6 path i inSec c cs')
  let ?E1 = "sectionsIn (path @ [i]) inSec c"
  let ?E2 = "sectionsInList path (Suc i) inSec cs'"
  from "6.prems"(3) obtain r where pb: "pb = pa @ r" by (auto simp: strict_prefix_def prefix_def)
  from "6.prems"(1) have "(pa, fa, Element name attrs cs) \<in> set ?E1
      \<or> (pa, fa, Element name attrs cs) \<in> set ?E2" by simp
  then show ?case
  proof
    assume a: "(pa, fa, Element name attrs cs) \<in> set ?E1"
    from sections_paths(1)[OF a] obtain r1 where pa: "pa = path @ i # r1"
      by (auto simp: prefix_def)
    have "(pb, fb, B) \<notin> set ?E2"
    proof
      assume "(pb, fb, B) \<in> set ?E2"
      from sections_paths(2)[OF this] obtain k r2 where "pb = path @ k # r2" "Suc i \<le> k" by blast
      with pb pa show False by simp
    qed
    with "6.prems"(2) have "(pb, fb, B) \<in> set ?E1" by simp
    from "6.IH"(1)[OF a this "6.prems"(3)] show ?thesis .
  next
    assume a: "(pa, fa, Element name attrs cs) \<in> set ?E2"
    from sections_paths(2)[OF a] obtain k r1 where pa: "pa = path @ k # r1" "Suc i \<le> k" by blast
    have "(pb, fb, B) \<notin> set ?E1"
    proof
      assume "(pb, fb, B) \<in> set ?E1"
      from sections_paths(1)[OF this] obtain r2 where "pb = path @ i # r2"
        by (auto simp: prefix_def)
      with pb pa show False by simp
    qed
    with "6.prems"(2) have "(pb, fb, B) \<in> set ?E2" by simp
    from "6.IH"(2)[OF a this "6.prems"(3)] show ?thesis .
  qed
qed simp_all

lemma sections_parsed:
  "(p, f, X) \<in> set (sectionsIn path inSec n) \<Longrightarrow> parsed n \<Longrightarrow> parsed X"
  "(p, f, X) \<in> set (sectionsInList path i inSec ns) \<Longrightarrow> list_all parsed ns \<Longrightarrow> parsed X"
  by (induction path inSec n and path i inSec ns rule: sectionsIn_sectionsInList.induct)
     (auto split: if_splits)

lemma parsed_setAttrWhere: "parsed n \<Longrightarrow> parsed (setAttrWhere p k v n)"
  by (induction n) (auto simp: list_all_iff)

lemma parsed_replaceWhere: "parsed n \<Longrightarrow> parsed new \<Longrightarrow> parsed (replaceWhere p new n)"
  by (induction n) (auto simp: list_all_iff)

lemma parsed_processTarget:
  "list_all parsed (doc st) \<Longrightarrow> list_all parsed (doc (processTarget st t))"
  by (auto simp: processTarget_def Let_def list_all_iff parsed_setAttrWhere parsed_replaceWhere)

lemma parsed_afterTargets: "list_all parsed d \<Longrightarrow> list_all parsed (doc (afterTargets d))"
  by (simp add: afterTargets_def targetIds_def parsed_processTarget)

lemma sectionStep_saved:
  "\<exists>new. savedComponents (sectionStep st e) = savedComponents st @ new"
proof -
  obtain index path isNested n where e: "e = (index, path, isNested, n)" by (cases e)
  show ?thesis by (cases n) (auto simp: e sectionStep_def Let_def)
qed

lemma section_loop_saved:
  "\<exists>new. savedComponents (foldl sectionStep st es) = savedComponents st @ new"
proof (induction es arbitrary: st)
  case Nil
  show ?case by simp
next
  case (Cons e es)
  from sectionStep_saved[of st e] obtain n1 where
    "savedComponents (sectionStep st e) = savedComponents st @ n1" by blast
  moreover from Cons.IH[of "sectionStep st e"] obtain n2 where
    "savedComponents (foldl sectionStep (sectionStep st e) es)
       = savedComponents (sectionStep st e) @ n2" by blast
  ultimately show ?case by simp
qed

lemma section_loop_turn:
  assumes "i < length es"
  shows "foldl sectionStep st (take (Suc i) es) = sectionStep (foldl sectionStep st (take i es)) (es ! i)"
    and "foldl sectionStep st es
           = foldl sectionStep (foldl sectionStep st (take (Suc i) es)) (drop (Suc i) es)"
proof -
  show "foldl sectionStep st (take (Suc i) es)
      = sectionStep (foldl sectionStep st (take i es)) (es ! i)"
    using assms by (simp add: take_Suc_conv_app_nth)
  have "foldl sectionStep st (take (Suc i) es @ drop (Suc i) es)
      = foldl sectionStep (foldl sectionStep st (take (Suc i) es)) (drop (Suc i) es)"
    by (simp only: foldl_append)
  then show "foldl sectionStep st es
           = foldl sectionStep (foldl sectionStep st (take (Suc i) es)) (drop (Suc i) es)"
    by simp
qed

text \<open>
  Claim C4, as stated, fails, in three ways.  In
  \<^verbatim>\<open><body><section id="a"><section id="pinnedTopLeft">Y</section></section></body>\<close> the inner
  section is a named target: the first phase extracts it under its own token
  \<open>wigoh-id-001\<close>, and the markup captured for the outer section holds that token, not the
  inner section's markup.  In
  \<^verbatim>\<open><section id="z"><section id="a"><section id="b">Y</section></section></section>\<close> the pair
  of \<open>a\<close> and \<open>b\<close> gets no fragment for \<open>a\<close>: the one fragment is for \<open>z\<close>.  In
  \<^verbatim>\<open><section id="x">X</section><section id="x"><section id="y">Y</section></section>\<close> the
  second section has an id already processed and is skipped, so no fragment is produced
  for it, and the markup of \<open>y\<close> is in no fragment: it stays in the template.
\<close>

theorem nested_section_pairs_without_fragment:
  \<open>map originalId (components (extractComponents targetSectionDoc))
     = [''pinnedTopLeft'', ''pinnedTopRight'', ''pinnedBottomLeft'', ''a'']
   \<and> map found (components (extractComponents targetSectionDoc)) = [True, False, False, True]
   \<and> html_content (hd (saved (extractComponents targetSectionDoc)))
     = ''<section id="pinnedTopLeft" wig-id="{{wigoh-id-001}}">Y</section>''
   \<and> html_content (last (saved (extractComponents targetSectionDoc)))
     = ''<section id="a" wig-id="{{wigoh-id-004}}">{{wigoh-id-001}}</section>''
   \<and> \<not> sublist ''<section id="pinnedTopLeft">Y</section>''
         (html_content (last (saved (extractComponents targetSectionDoc))))
   \<and> map originalId (components (extractComponents threeLevelDoc))
     = [''pinnedTopLeft'', ''pinnedTopRight'', ''pinnedBottomLeft'', ''z'']
   \<and> map html_content (drop 3 (saved (extractComponents threeLevelDoc)))
     = [''<section id="z" wig-id="{{wigoh-id-004}}"><section id="a"><section id="b">Y</section></section></section>'']
   \<and> map originalId (components (extractComponents duplicateIdDoc))
     = [''pinnedTopLeft'', ''pinnedTopRight'', ''pinnedBottomLeft'', ''x'']
   \<and> map html_content (drop 3 (saved (extractComponents duplicateIdDoc)))
     = [''<section id="x" wig-id="{{wigoh-id-004}}">X</section>'']
   \<and> sublist ''{{wigoh-id-004}}<section id="x"><section id="y">Y</section></section>''
         (cleanedHtml (extractComponents duplicateIdDoc))\<close>
  by code_simp

text \<open>
  Claim C4, amended.  Take the sections that the loop collects from the document as it
  stands after the named targets are processed (a section that is itself a named target
  has been extracted there, under its own token), and among them a section \<open>A\<close> and a
  section \<open>B\<close> inside \<open>A\<close>, in a parsed document, where a void element has no children.
  Then the loop finds \<open>B\<close> nested, and its turn for \<open>B\<close> changes nothing: no token, no
  fragment.  When \<open>A\<close> is top-level and its resolved id has not been processed when its
  turn comes, that turn records exactly one fragment, of kind \<open>section\<close>, for \<open>A\<close>, under
  the next token; the markup of \<open>B\<close> is inside the markup captured for \<open>A\<close>, both in the
  fragment and in the row saved; and both are among those that \<open>extractComponents\<close>
  returns.  Otherwise the turn for \<open>A\<close> changes nothing either.
\<close>

theorem nested_section_stays_in_ancestor:
  assumes "list_all parsed d"
    and "sections = enumerate 0 (sectionsInList [] 0 False (doc (afterTargets d)))"
    and "(i, pa, fa, Element name attrs cs) \<in> set sections"
    and "(j, pb, fb, B) \<in> set sections"
    and "strict_prefix pa pb"
    and "before = foldl sectionStep (afterTargets d) (take i sections)"
  shows "name = ''section'' \<and> fb
     \<and> foldl sectionStep (afterTargets d) (take (Suc j) sections)
         = foldl sectionStep (afterTargets d) (take j sections)
     \<and> (if \<not> fa \<and> sectionIdOf i attrs \<notin> set (processedSections before) then
          \<exists>c r. extractedComponents (foldl sectionStep (afterTargets d) (take (Suc i) sections))
                   = extractedComponents before @ [c]
               \<and> savedComponents (foldl sectionStep (afterTargets d) (take (Suc i) sections))
                   = savedComponents before @ [r]
               \<and> ctype c = Section \<and> found c \<and> originalId c = sectionIdOf i attrs
               \<and> original_id r = sectionIdOf i attrs
               \<and> placeholderId c = placeholderIdOf (placeholderCounter before)
               \<and> sublist (outerHTML B) (componentHtml c)
               \<and> sublist (outerHTML B) (html_content r)
               \<and> c \<in> set (components (extractComponents d))
               \<and> r \<in> set (saved (extractComponents d))
        else foldl sectionStep (afterTargets d) (take (Suc i) sections) = before)"
proof -
  define S where "S = sectionsInList [] 0 False (doc (afterTargets d))"
  have L: "sections = enumerate 0 S" by (simp add: assms(2) S_def)
  from assms(3) have i: "i < length sections" "sections ! i = (i, pa, fa, Element name attrs cs)"
    and ia: "(pa, fa, Element name attrs cs) \<in> set S"
    unfolding L by (auto simp: in_set_enumerate_eq nth_enumerate_eq dest: nth_mem)
  from assms(4) have j: "j < length sections" "sections ! j = (j, pb, fb, B)"
    and jb: "(pb, fb, B) \<in> set S"
    unfolding L by (auto simp: in_set_enumerate_eq nth_enumerate_eq dest: nth_mem)
  from sections_named(2)[OF ia[unfolded S_def]] have nm: "name = ''section''" .
  from sections_below(2)[OF ia[unfolded S_def] jb[unfolded S_def] assms(5)]
  have inner: "(pb, fb, B) \<in> set (sectionsInList pa 0 True cs)" .
  from sectionsIn_flag(2)[OF inner] have fb: fb .
  have bturn: "foldl sectionStep (afterTargets d) (take (Suc j) sections)
         = foldl sectionStep (afterTargets d) (take j sections)"
    using fb by (simp add: section_loop_turn(1)[OF j(1)] j(2) sectionStep_nested)
  have aturn: "foldl sectionStep (afterTargets d) (take (Suc i) sections)
         = sectionStep before (i, pa, fa, Element name attrs cs)"
    by (simp add: section_loop_turn(1)[OF i(1)] i(2) assms(6))
  have pA: "parsed (Element name attrs cs)"
    by (rule sections_parsed(2)[OF ia[unfolded S_def] parsed_afterTargets[OF assms(1)]])
  have fin: "afterSections (afterTargets d)
      = foldl sectionStep (sectionStep before (i, pa, fa, Element name attrs cs))
          (drop (Suc i) sections)"
    unfolding afterSections_def assms(2)[symmetric] aturn[symmetric]
    by (rule section_loop_turn(2)[OF i(1)])
  show ?thesis
  proof (cases "\<not> fa \<and> sectionIdOf i attrs \<notin> set (processedSections before)")
    case False
    then have "sectionStep before (i, pa, fa, Element name attrs cs) = before"
      by (auto simp: sectionStep_def Let_def)
    with False nm fb bturn aturn show ?thesis by simp
  next
    case True
    define pid where "pid = placeholderIdOf (placeholderCounter before)"
    define html where
      "html = outerHTML (Element name (AList.update ''wig-id'' (''{{'' @ pid @ ''}}'') attrs) cs)"
    define c where "c = \<lparr>placeholderId = pid, originalId = sectionIdOf i attrs, ctype = Section,
      found = True, componentHtml = createCleanComponentHTML html (sectionIdOf i attrs) pid\<rparr>"
    define r where "r = \<lparr>placeholder_id = pid, original_id = sectionIdOf i attrs,
      saved_type = Section, html_content = html\<rparr>"
    have e: "extractedComponents (sectionStep before (i, pa, fa, Element name attrs cs))
        = extractedComponents before @ [c]"
      and sv: "savedComponents (sectionStep before (i, pa, fa, Element name attrs cs))
        = savedComponents before @ [r]"
      using True by (simp_all add: sectionStep_def Let_def c_def r_def html_def pid_def)
    have in1: "sublist (outerHTML B) html"
      unfolding html_def by (rule nested_markup_in_section[OF pA inner])
    have "sublist html (createCleanComponentHTML html (sectionIdOf i attrs) pid)"
      unfolding createCleanComponentHTML_def sublist_def by (metis append.assoc)
    with in1 have in2: "sublist (outerHTML B)
        (createCleanComponentHTML html (sectionIdOf i attrs) pid)"
      by (rule sublist_order.order_trans)
    from section_loop_adds[of "sectionStep before (i, pa, fa, Element name attrs cs)"
        "drop (Suc i) sections"]
    have "c \<in> set (extractedComponents (afterSections (afterTargets d)))"
      unfolding fin[symmetric] e by auto
    then have m1: "c \<in> set (components (extractComponents d))"
      by (simp add: extractComponents_def Let_def)
    from section_loop_saved[of "sectionStep before (i, pa, fa, Element name attrs cs)"
        "drop (Suc i) sections"]
    have "r \<in> set (savedComponents (afterSections (afterTargets d)))"
      unfolding fin[symmetric] sv by auto
    then have m2: "r \<in> set (saved (extractComponents d))"
      by (simp add: extractComponents_def Let_def)
    have "\<exists>c r. extractedComponents (foldl sectionStep (afterTargets d) (take (Suc i) sections))
                   = extractedComponents before @ [c]
               \<and> savedComponents (foldl sectionStep (afterTargets d) (take (Suc i) sections))
                   = savedComponents before @ [r]
               \<and> ctype c = Section \<and> found c \<and> originalId c = sectionIdOf i attrs
               \<and> original_id r = sectionIdOf i attrs
               \<and> placeholderId c = placeholderIdOf (placeholderCounter before)
               \<and> sublist (outerHTML B) (componentHtml c)
               \<and> sublist (outerHTML B) (html_content r)
               \<and> c \<in> set (components (extractComponents d))
               \<and> r \<in> set (saved (extractComponents d))"
      unfolding aturn
      using e sv in1 in2 m1 m2
      by (intro exI[of _ c] exI[of _ r]) (simp add: c_def r_def pid_def)
    with True nm fb bturn show ?thesis by simp
  qed
qed


theorem nested_section_stays_in_ancestor_witness:
  \<open>list_all parsed nestedSectionsDoc
   \<and> enumerate 0 (sectionsInList [] 0 False (doc (afterTargets nestedSectionsDoc)))
       = [(0, [0, 1, 0], False, Element ''section'' [(''id'', ''a'')] [Text ''X'']),
          (1, [0, 1, 1], False, Element ''section'' [(''id'', ''b'')] [Element ''section'' [(''id'', ''c'')] [Text ''Y'']]),
          (2, [0, 1, 1, 0], True, Element ''section'' [(''id'', ''c'')] [Text ''Y''])]
   \<and> strict_prefix [0, 1, 1] [0, 1, 1, 0::nat]
   \<and> sectionIdOf 1 [(''id'', ''b'')] = ''b''
   \<and> processedSections (foldl sectionStep (afterTargets nestedSectionsDoc)
         (take 1 (enumerate 0 (sectionsInList [] 0 False (doc (afterTargets nestedSectionsDoc))))))
       = [''a'']
   \<and> outerHTML (Element ''section'' [(''id'', ''c'')] [Text ''Y'']) = ''<section id="c">Y</section>''
   \<and> foldl sectionStep (afterTargets nestedSectionsDoc)
         (take 3 (enumerate 0 (sectionsInList [] 0 False (doc (afterTargets nestedSectionsDoc)))))
       = foldl sectionStep (afterTargets nestedSectionsDoc)
         (take 2 (enumerate 0 (sectionsInList [] 0 False (doc (afterTargets nestedSectionsDoc)))))
   \<and> (\<exists>c r. c \<in> set (components (extractComponents nestedSectionsDoc))
          \<and> r \<in> set (saved (extractComponents nestedSectionsDoc))
          \<and> ctype c = Section \<and> originalId c = ''b'' \<and> original_id r = ''b''
          \<and> sublist ''<section id="c">Y</section>'' (componentHtml c)
          \<and> sublist ''<section id="c">Y</section>'' (html_content r))
   \<and> map originalId (components (extractComponents nestedSectionsDoc))
       = [''pinnedTopLeft'', ''pinnedTopRight'', ''pinnedBottomLeft'', ''a'', ''b'']
   \<and> map html_content (drop 3 (saved (extractComponents nestedSectionsDoc)))
       = [''<section id="a" wig-id="{{wigoh-id-004}}">X</section>'',
          ''<section id="b" wig-id="{{wigoh-id-005}}"><section id="c">Y</section></section>'']\<close>
proof -
  define sections where
    "sections = enumerate 0 (sectionsInList [] 0 False (doc (afterTargets nestedSectionsDoc)))"
  define before where
    "before = foldl sectionStep (afterTargets nestedSectionsDoc) (take 1 sections)"
  have a: "list_all parsed nestedSectionsDoc"
    by (simp add: nestedSectionsDoc_def voidElements_def)
  have b: "enumerate 0 (sectionsInList [] 0 False (doc (afterTargets nestedSectionsDoc)))
       = [(0, [0, 1, 0], False, Element ''section'' [(''id'', ''a'')] [Text ''X'']),
          (1, [0, 1, 1], False, Element ''section'' [(''id'', ''b'')] [Element ''section'' [(''id'', ''c'')] [Text ''Y'']]),
          (2, [0, 1, 1, 0], True, Element ''section'' [(''id'', ''c'')] [Text ''Y''])]"
    by code_simp
  have m1: "(1, [0, 1, 1], False, Element ''section'' [(''id'', ''b'')] [Element ''section'' [(''id'', ''c'')] [Text ''Y'']]) \<in> set sections"
    and m2: "(2, [0, 1, 1, 0], True, Element ''section'' [(''id'', ''c'')] [Text ''Y'']) \<in> set sections"
    unfolding sections_def b by simp_all
  have sp: "strict_prefix [0, 1, 1] [0, 1, 1, 0::nat]" by simp
  have sid: "sectionIdOf 1 [(''id'', ''b'')] = ''b''" by (simp add: sectionIdOf_def)
  have ps: "processedSections (foldl sectionStep (afterTargets nestedSectionsDoc)
         (take 1 (enumerate 0 (sectionsInList [] 0 False (doc (afterTargets nestedSectionsDoc))))))
       = [''a'']"
    by code_simp
  have fresh: "\<not> False \<and> sectionIdOf 1 [(''id'', ''b'')] \<notin> set (processedSections before)"
    unfolding before_def sections_def ps sid by simp
  have oh: \<open>outerHTML (Element ''section'' [(''id'', ''c'')] [Text ''Y'']) = ''<section id="c">Y</section>''\<close>
    by code_simp
  have ids: "map originalId (components (extractComponents nestedSectionsDoc))
       = [''pinnedTopLeft'', ''pinnedTopRight'', ''pinnedBottomLeft'', ''a'', ''b'']"
    by code_simp
  have sv: \<open>map html_content (drop 3 (saved (extractComponents nestedSectionsDoc)))
       = [''<section id="a" wig-id="{{wigoh-id-004}}">X</section>'',
          ''<section id="b" wig-id="{{wigoh-id-005}}"><section id="c">Y</section></section>'']\<close>
    by code_simp
  note t = nested_section_stays_in_ancestor[OF a sections_def m1 m2 sp before_def]
  from t have bt: "foldl sectionStep (afterTargets nestedSectionsDoc) (take (Suc 2) sections)
       = foldl sectionStep (afterTargets nestedSectionsDoc) (take 2 sections)"
    by blast
  from t fresh have "\<exists>c r. ctype c = Section \<and> originalId c = sectionIdOf 1 [(''id'', ''b'')]
        \<and> original_id r = sectionIdOf 1 [(''id'', ''b'')]
        \<and> sublist (outerHTML (Element ''section'' [(''id'', ''c'')] [Text ''Y''])) (componentHtml c)
        \<and> sublist (outerHTML (Element ''section'' [(''id'', ''c'')] [Text ''Y''])) (html_content r)
        \<and> c \<in> set (components (extractComponents nestedSectionsDoc))
        \<and> r \<in> set (saved (extractComponents nestedSectionsDoc))"
    by (simp only: if_True simp_thms) blast
  then have ex: \<open>\<exists>c r. c \<in> set (components (extractComponents nestedSectionsDoc))
          \<and> r \<in> set (saved (extractComponents nestedSectionsDoc))
          \<and> ctype c = Section \<and> originalId c = ''b'' \<and> original_id r = ''b''
          \<and> sublist ''<section id="c">Y</section>'' (componentHtml c)
          \<and> sublist ''<section id="c">Y</section>'' (html_content r)\<close>
    unfolding sid oh by blast
  have three: "Suc 2 = 3" by simp
  from a b sp sid ps oh bt[unfolded three sections_def] ex ids sv show ?thesis
    by (intro conjI)
qed

subsection \<open>StyleApplicator\<close>

lemma recordEntry_clean:
  "recordEntry kvs acc = Inr (Some acc') \<Longrightarrow> list_all cleanEntry acc \<Longrightarrow> list_all cleanEntry acc'"
  by (auto simp: recordEntry_def cleanEntry_def split: option.splits if_splits sum.splits bool.splits)

lemma flatten_clean:
  "flattenElements v acc = Inr r \<Longrightarrow> list_all cleanEntry acc \<Longrightarrow> list_all cleanEntry r"
  "flattenList vs acc = Inr r \<Longrightarrow> list_all cleanEntry acc \<Longrightarrow> list_all cleanEntry r"
proof (induction v acc and vs acc arbitrary: r and r rule: flattenElements_flattenList.induct)
  case (2 kvs flatArray)
  show ?case
  proof (cases "recordEntry kvs flatArray")
    case (Inl e)
    with "2.prems" show ?thesis by simp
  next
    case (Inr o1)
    show ?thesis
    proof (cases o1)
      case None
      with Inr "2.prems" show ?thesis by simp
    next
      case (Some acc')
      with Inr "2.prems" have f: "flattenList (childrenOf kvs) acc' = Inr r" by simp
      from recordEntry_clean[of kvs flatArray acc'] Inr Some "2.prems"(2)
      have "list_all cleanEntry acc'" by simp
      from "2.IH"[OF _ _ f this] Inr Some show ?thesis by simp
    qed
  qed
next
  case (8 x xs flatArray)
  from "8.prems"(1) obtain acc' where a: "flattenElements x flatArray = Inr acc'"
    "flattenList xs acc' = Inr r"
    by (auto split: sum.splits)
  from "8.IH"(1)[OF a(1) "8.prems"(2)] have "list_all cleanEntry acc'" .
  from "8.IH"(2)[OF a(1) a(2) this] show ?case .
qed auto

lemma qualifies_not_script:
  "qualifies (path, b, Element name attrs cs) \<Longrightarrow> toLowerCase name \<noteq> ''script''"
  by (auto simp: excludedTags_def)

lemma inlineStyleString_returns:
  "\<not> shadowsHasOwnProperty styles \<Longrightarrow> \<exists>s. inlineStyleString styles ps inline = Inr s"
  by (induction ps arbitrary: inline) (auto simp: hasOwnPropertyCall_def)

lemma loopStep_matched:
  assumes "qualifies e" and "i < length entries" and "cleanEntry (entries ! i)"
    and "plainStyles (entries ! i)"
  shows "\<exists>st'. loopStep entries st (i, e) = Inr st'
           \<and> totalMatches st' = Suc (totalMatches st)
           \<and> indexMismatches st' = indexMismatches st
           \<and> skippedScriptElements st' = skippedScriptElements st"
proof -
  obtain path b n where e: "e = (path, b, n)" by (cases e)
  with assms(1) obtain name attrs cs where n: "n = Element name attrs cs" by (cases n) auto
  from assms(1) have "toLowerCase name \<noteq> ''script''"
    unfolding e n by (rule qualifies_not_script)
  moreover from assms(4) obtain s where
    "inlineStyleString (jStyles (entries ! i)) (styleProps (jStyles (entries ! i))) [] = Inr s"
    using inlineStyleString_returns unfolding plainStyles_def by blast
  ultimately show ?thesis
    using assms(2,3) by (simp add: e n cleanEntry_def Let_def)
qed

lemma mainLoop_matched:
  assumes "list_all cleanEntry entries" and "list_all plainStyles entries"
  shows "list_all qualifies es \<Longrightarrow> k + length es \<le> length entries \<Longrightarrow>
     \<exists>st'. mainLoop entries st (enumerate k es) = Inr st'
           \<and> totalMatches st' = totalMatches st + length es
           \<and> indexMismatches st' = indexMismatches st
           \<and> skippedScriptElements st' = skippedScriptElements st"
proof (induction es arbitrary: k st)
  case Nil
  then show ?case by simp
next
  case (Cons e es)
  from Cons.prems have q: "qualifies e" and k: "k < length entries" by auto
  from assms k have "cleanEntry (entries ! k)" "plainStyles (entries ! k)"
    by (simp_all add: list_all_length)
  from loopStep_matched[OF q k this, of st] obtain st1 where
    s1: "loopStep entries st (k, e) = Inr st1" "totalMatches st1 = Suc (totalMatches st)"
    "indexMismatches st1 = indexMismatches st"
    "skippedScriptElements st1 = skippedScriptElements st" by blast
  from Cons.prems have "list_all qualifies es" "Suc k + length es \<le> length entries" by auto
  from Cons.IH[OF this, of st1] obtain st' where
    s': "mainLoop entries st1 (enumerate (Suc k) es) = Inr st'"
    "totalMatches st' = totalMatches st1 + length es"
    "indexMismatches st' = indexMismatches st1"
    "skippedScriptElements st' = skippedScriptElements st1" by blast
  from s1 s' show ?case by simp
qed

text \<open>
  When the style document flattens to \<open>n\<close> entries, none of whose style objects has a
  property named \<open>hasOwnProperty\<close>, and the page has \<open>n\<close> qualifying elements,
  \<open>processHtml\<close> returns, every element is paired with the entry at its index, and the
  statistics satisfy \<open>totalMatches + indexMismatches = n\<close>.  Script entries never reach
  the loop (\<open>flattenElements\<close> drops them, and \<open>script\<close> is an excluded tag), so all \<open>n\<close>
  pairs count as matches.
\<close>

lemma processHtml_counts:
  assumes "flattenElements layoutJson [] = Inr jsonStylesArray"
    and "list_all plainStyles jsonStylesArray"
    and "length jsonStylesArray = n"
    and "length (allHtmlElements (load rawHtml)) = n"
  shows "\<exists>r. processHtml load rawHtml layoutJson = Inr r
            \<and> statTotalMatches r + statIndexMismatches r = n
            \<and> statTotalMatches r = n \<and> statIndexMismatches r = 0
            \<and> statSkippedScriptElements r = 0
            \<and> statTotalHtmlElements r = n \<and> statTotalJsonEntries r = n"
proof -
  have c: "list_all cleanEntry jsonStylesArray"
    by (rule flatten_clean(1)[OF assms(1)]) simp
  have q: "list_all qualifies (allHtmlElements (load rawHtml))"
    by (simp add: allHtmlElements_def list_all_iff)
  from assms(3,4) have "0 + length (allHtmlElements (load rawHtml)) \<le> length jsonStylesArray"
    by simp
  from mainLoop_matched[OF c assms(2) q this,
      of "\<lparr>pdoc = load rawHtml, totalMatches = 0, skippedScriptElements = 0,
           indexMismatches = 0\<rparr>"]
  obtain st where st: "mainLoop jsonStylesArray
      \<lparr>pdoc = load rawHtml, totalMatches = 0, skippedScriptElements = 0, indexMismatches = 0\<rparr>
      (enumerate 0 (allHtmlElements (load rawHtml))) = Inr st"
    "totalMatches st = length (allHtmlElements (load rawHtml))"
    "indexMismatches st = 0" "skippedScriptElements st = 0"
    by auto
  show ?thesis
    using assms st by (simp add: processHtml_def Let_def)
qed

lemma processHtml_counts_demo:
  "(\<exists>entries. flattenElements demoLayout [] = Inr entries \<and> list_all plainStyles entries
        \<and> length entries = 3)
   \<and> length (allHtmlElements (demoLoad [])) = 3
   \<and> (\<exists>r. processHtml demoLoad [] demoLayout = Inr r
          \<and> statTotalMatches r + statIndexMismatches r = 3)"
proof -
  obtain entries where e: "flattenElements demoLayout [] = Inr entries"
    "list_all plainStyles entries" "length entries = 3"
    by (simp add: demoLayout_def recordEntry_def childrenOf_def toLowerCase_def toLowerChar_def
        plainStyles_def)
  have h: "length (allHtmlElements (demoLoad [])) = 3"
    by (simp add: allHtmlElements_def demoLoad_def excludedTags_def toLowerCase_def
        toLowerChar_def)
  from processHtml_counts[where load = demoLoad and rawHtml = "[]", OF e h] e h
  show ?thesis by blast
qed

text \<open>
  Claim C5.  The style document \<^verbatim>\<open>{"styles": {"hasOwnProperty": "x"}}\<close> flattens to one
  entry and the page \<^verbatim>\<open><html><head></head><body></body></html>\<close> has one qualifying element,
  so both sequences have length 1.  In the turn for that pair the style loop calls
  \<open>styles.hasOwnProperty(property)\<close>, which here is the string \<^verbatim>\<open>"x"\<close>: the call throws a
  \<open>TypeError\<close>, and \<open>processHtml\<close> returns no statistics at all, where the claim has one
  matched attempt and \<open>totalMatches + indexMismatches = 1\<close>.
\<close>

theorem processHtml_shadowed_hasOwnProperty:
  "flattenElements shadowingLayout [] =
     Inr [\<lparr>jTag = None, jId = None, jClassName = None, jHtml = None,
           jStyles = JObj [(''hasOwnProperty'', JStr ''x'')], jsonIndex = 0\<rparr>]
   \<and> length (allHtmlElements (emptyPageLoad [])) = 1
   \<and> processHtml emptyPageLoad [] shadowingLayout = Inl TypeError"
  by (simp add: shadowingLayout_def emptyPageLoad_def recordEntry_def childrenOf_def
      allHtmlElements_def excludedTags_def toLowerCase_def toLowerChar_def processHtml_def
      hasOwnPropertyCall_def Let_def)

subsection \<open>Substitution and occurrences\<close>

lemma rav_skip:
  assumes "k \<noteq> []" and "\<And>t'. t' \<noteq> [] \<Longrightarrow> suffix t' A \<Longrightarrow> \<not> prefix k (t' @ B)"
  shows "replaceAllVerbatim k r (A @ B) = A @ replaceAllVerbatim k r B"
  using assms(2)
proof (induction A)
  case Nil
  then show ?case by simp
next
  case (Cons a A)
  have "\<not> prefix k ((a # A) @ B)" using Cons.prems[of "a # A"] by simp
  then have "replaceAllVerbatim k r ((a # A) @ B) = a # replaceAllVerbatim k r (A @ B)"
    by (subst replaceAllVerbatim.simps) simp
  moreover have "replaceAllVerbatim k r (A @ B) = A @ replaceAllVerbatim k r B"
    by (rule Cons.IH) (use Cons.prems in \<open>auto simp: suffix_Cons\<close>)
  ultimately show ?case by simp
qed

lemma rav_hit: "k \<noteq> [] \<Longrightarrow> replaceAllVerbatim k r (k @ B) = r @ replaceAllVerbatim k r B"
  by (subst replaceAllVerbatim.simps) simp

lemma suffix_prefix_sublist: "suffix t' s \<Longrightarrow> prefix k t' \<Longrightarrow> sublist k s"
  by (auto simp: suffix_def prefix_def sublist_def)

lemma rav_none:
  assumes "k \<noteq> []" "\<not> sublist k s"
  shows "replaceAllVerbatim k r s = s"
proof -
  have "replaceAllVerbatim k r (s @ []) = s @ replaceAllVerbatim k r []"
  proof (rule rav_skip[OF assms(1)])
    fix t' assume "t' \<noteq> []" "suffix t' s"
    with assms(2) show "\<not> prefix k (t' @ [])"
      by (auto dest: suffix_prefix_sublist)
  qed
  then show ?thesis by (simp add: replaceAllVerbatim.simps[of k r "[]"])
qed

lemma widget_prefix_unbordered:
  assumes "prefix ''{{widget-'' (t @ ''{{widget-'' @ Z)" and "t \<noteq> []"
  shows "prefix ''{{widget-'' t"
  using assms
  by (auto simp: prefix_append Cons_eq_append_conv prefix_Cons)

lemma widgetKey_nonempty: "widgetKey i \<noteq> []"
  by (simp add: widgetKey_def)

lemma widgetKey_prefix: "prefix (widgetKey i) s \<Longrightarrow> prefix ''{{widget-'' s"
  by (auto simp: widgetKey_def prefix_def)

lemma widgetKey_sublist: "sublist (widgetKey i) s \<Longrightarrow> sublist ''{{widget-'' s"
proof -
  assume "sublist (widgetKey i) s"
  then obtain a b where "s = a @ widgetKey i @ b" by (auto simp: sublist_def)
  then have "s = a @ ''{{widget-'' @ (showNat i @ ''}}'' @ b)" by (simp add: widgetKey_def)
  then show ?thesis unfolding sublist_def by blast
qed

lemma widgetKey_isWidgetToken: "isWidgetToken (widgetKey i)"
  using takeWhile_digits[OF showNat_digits not_isDigit_brace, of i "''}''"]
    dropWhile_digits[OF showNat_digits not_isDigit_brace, of i "''}''"] showNat_nonempty[of i]
  by (simp add: isWidgetToken_def widgetKey_def)

lemma widgetKey_brace: "braceToken (widgetKey i)"
  by (rule isWidgetToken_brace[OF widgetKey_isWidgetToken])

lemma tokenFree_sublist: "sublist s s' \<Longrightarrow> tokenFree s' \<Longrightarrow> tokenFree s"
  unfolding tokenFree_def by (meson sublist_order.order_trans)

lemma orig_Cons [simp]: "orig (x # xs) = origSeg x @ orig xs" "orig [] = []"
  by (simp_all add: orig_def)

lemma modi_Cons [simp]: "modi (x # xs) = modiSeg x @ modi xs" "modi [] = []"
  by (simp_all add: modi_def)

lemma holes_Cons [simp]: "holes (x # xs) = holeOf x @ holes xs" "holes [] = []"
  by (simp_all add: holes_def)

lemma idxs_Cons [simp]: "idxs (x # xs) = idxOf x @ idxs xs" "idxs [] = []"
  by (simp_all add: idxs_def)

text \<open>In the modified text the string \<open>{{widget-\<close> begins nowhere inside the original
  text.\<close>

lemma no_token_start_in_text:
  "tokenFree (A @ orig segs @ R) \<Longrightarrow> t' \<noteq> [] \<Longrightarrow> suffix t' A \<Longrightarrow>
     \<not> prefix ''{{widget-'' (t' @ modi segs @ R)"
proof (induction segs arbitrary: A t')
  case Nil
  show ?case
  proof
    assume "prefix ''{{widget-'' (t' @ modi [] @ R)"
    then obtain z where z: "t' @ R = ''{{widget-'' @ z" by (auto simp: prefix_def)
    from Nil.prems(3) obtain a where "A = a @ t'" by (auto simp: suffix_def)
    with z have "A @ R = a @ ''{{widget-'' @ z" by simp
    then have "sublist ''{{widget-'' (A @ R)" unfolding sublist_def by blast
    with Nil.prems(1) show False by (simp add: tokenFree_def)
  qed
next
  case (Cons x segs)
  show ?case
  proof (cases x)
    case (Lit s)
    from Cons.prems have "tokenFree ((A @ s) @ orig segs @ R)" "t' @ s \<noteq> []"
      "suffix (t' @ s) (A @ s)" by (simp_all add: Lit)
    from Cons.IH[OF this] show ?thesis by (simp add: Lit)
  next
    case (Hole i h)
    show ?thesis
    proof
      assume "prefix ''{{widget-'' (t' @ modi (x # segs) @ R)"
      then have "prefix ''{{widget-'' (t' @ ''{{widget-'' @ (showNat i @ ''}}'' @ modi segs @ R))"
        by (simp add: Hole widgetKey_def)
      from widget_prefix_unbordered[OF this Cons.prems(2)]
      have "sublist ''{{widget-'' A" using Cons.prems(3) by (rule suffix_prefix_sublist[rotated])
      then have "sublist ''{{widget-'' (A @ orig (x # segs) @ R)" by (simp add: sublist_append)
      with Cons.prems(1) show False by (simp add: tokenFree_def)
    qed
  next
    case (Hidden i h)
    from Cons.prems have "tokenFree (A @ orig segs @ R)" by (simp add: Hidden)
    from Cons.IH[OF this Cons.prems(2,3)] show ?thesis by (simp add: Hidden)
  qed
qed

lemma rav_over_text:
  assumes "tokenFree (A @ orig segs @ R)"
  shows "replaceAllVerbatim (widgetKey i) h (A @ modi segs @ R)
           = A @ replaceAllVerbatim (widgetKey i) h (modi segs @ R)"
proof (rule rav_skip[OF widgetKey_nonempty])
  fix t' assume "t' \<noteq> []" "suffix t' A"
  from no_token_start_in_text[OF assms this]
  show "\<not> prefix (widgetKey i) (t' @ modi segs @ R)"
    by (auto dest: widgetKey_prefix)
qed

lemma rav_over_other_key:
  assumes "i \<noteq> j"
  shows "replaceAllVerbatim (widgetKey i) h (widgetKey j @ B)
           = widgetKey j @ replaceAllVerbatim (widgetKey i) h B"
proof (rule rav_skip[OF widgetKey_nonempty])
  fix t' assume "t' \<noteq> []" "suffix t' (widgetKey j)"
  from token_overlap[OF widgetKey_brace widgetKey_brace this(2,1), of i B] assms
  show "\<not> prefix (widgetKey i) (t' @ B)" by (auto dest: widgetKey_inj)
qed

text \<open>A token that marks no hole of the text occurs nowhere in it.\<close>

lemma rav_absent:
  "tokenFree (A @ orig segs @ R) \<Longrightarrow> i \<notin> set (idxs segs) \<Longrightarrow>
     replaceAllVerbatim (widgetKey i) h (A @ modi segs @ R) = A @ modi segs @ R"
proof (induction segs arbitrary: A)
  case Nil
  have "\<not> sublist (widgetKey i) (A @ R)"
    using Nil.prems(1) by (auto simp: tokenFree_def dest: widgetKey_sublist)
  from rav_none[OF widgetKey_nonempty this] show ?case by simp
next
  case (Cons x segs)
  show ?case
  proof (cases x)
    case (Lit s)
    from Cons.prems have "tokenFree ((A @ s) @ orig segs @ R)" "i \<notin> set (idxs segs)"
      by (simp_all add: Lit)
    from Cons.IH[OF this] show ?thesis by (simp add: Lit)
  next
    case (Hole j h')
    from Cons.prems(2) have ij: "i \<noteq> j" "i \<notin> set (idxs segs)" by (simp_all add: Hole)
    have "sublist (orig segs @ R) (A @ orig (x # segs) @ R)"
      unfolding sublist_def Hole by (intro exI[of _ "A @ h'"] exI[of _ "[]"]) simp
    from tokenFree_sublist[OF this Cons.prems(1)] have "tokenFree ([] @ orig segs @ R)" by simp
    from Cons.IH[OF this ij(2)]
    have 3: "replaceAllVerbatim (widgetKey i) h (modi segs @ R) = modi segs @ R" by simp
    have "replaceAllVerbatim (widgetKey i) h (A @ modi (x # segs) @ R)
            = A @ replaceAllVerbatim (widgetKey i) h (modi (x # segs) @ R)"
      by (rule rav_over_text[OF Cons.prems(1)])
    also have "\<dots> = A @ widgetKey j @ replaceAllVerbatim (widgetKey i) h (modi segs @ R)"
      by (simp add: Hole rav_over_other_key[OF ij(1)])
    finally show ?thesis by (simp add: 3 Hole)
  next
    case (Hidden j h')
    from Cons.prems have "tokenFree (A @ orig segs @ R)" "i \<notin> set (idxs segs)"
      by (simp_all add: Hidden)
    from Cons.IH[OF this] show ?thesis by (simp add: Hidden)
  qed
qed

lemma substituteWidgets_Cons:
  "substituteWidgets ((k, h) # ws) s = substituteWidgets ws (replaceAllVerbatim k h s)"
  by (simp add: substituteWidgets_def)

text \<open>Substituting the widgets of the pieces, in their order, gives the original back.\<close>

lemma substitute_back:
  "tokenFree (L @ orig segs @ R) \<Longrightarrow> distinct (idxs segs) \<Longrightarrow>
     substituteWidgets (holes segs) (L @ modi segs @ R) = L @ orig segs @ R"
proof (induction segs arbitrary: L)
  case Nil
  show ?case by (simp add: substituteWidgets_def)
next
  case (Cons x segs)
  show ?case
  proof (cases x)
    case (Lit s)
    from Cons.prems have "tokenFree ((L @ s) @ orig segs @ R)" "distinct (idxs segs)"
      by (simp_all add: Lit)
    from Cons.IH[OF this] show ?thesis by (simp add: Lit)
  next
    case (Hole i h)
    from Cons.prems(2) have d: "i \<notin> set (idxs segs)" "distinct (idxs segs)"
      by (simp_all add: Hole)
    have "sublist (orig segs @ R) (L @ orig (x # segs) @ R)"
      unfolding sublist_def Hole by (intro exI[of _ "L @ h"] exI[of _ "[]"]) simp
    from tokenFree_sublist[OF this Cons.prems(1)] have "tokenFree ([] @ orig segs @ R)" by simp
    from rav_absent[OF this d(1)]
    have 3: "replaceAllVerbatim (widgetKey i) h (modi segs @ R) = modi segs @ R" by simp
    have "replaceAllVerbatim (widgetKey i) h (L @ modi (x # segs) @ R)
            = L @ replaceAllVerbatim (widgetKey i) h (modi (x # segs) @ R)"
      by (rule rav_over_text[OF Cons.prems(1)])
    also have "\<dots> = L @ h @ replaceAllVerbatim (widgetKey i) h (modi segs @ R)"
      by (simp add: Hole rav_hit[OF widgetKey_nonempty])
    finally have r: "replaceAllVerbatim (widgetKey i) h (L @ modi (x # segs) @ R)
            = (L @ h) @ modi segs @ R" by (simp add: 3)
    from Cons.prems(1) have "tokenFree ((L @ h) @ orig segs @ R)" by (simp add: Hole)
    from Cons.IH[OF this d(2)] show ?thesis
      by (simp add: Hole substituteWidgets_Cons r[unfolded Hole, simplified])
  next
    case (Hidden i h)
    from Cons.prems have d: "tokenFree (L @ orig segs @ R)" "i \<notin> set (idxs segs)"
      "distinct (idxs segs)" by (simp_all add: Hidden)
    from Cons.IH[OF d(1,3)] rav_absent[OF d(1,2)] show ?thesis
      by (simp add: Hidden substituteWidgets_Cons)
  qed
qed

subsection \<open>The pieces of a document\<close>

lemma orig_append [simp]: "orig (xs @ ys) = orig xs @ orig ys"
  by (simp add: orig_def)

lemma modi_append [simp]: "modi (xs @ ys) = modi xs @ modi ys"
  by (simp add: modi_def)

lemma holes_append [simp]: "holes (xs @ ys) = holes xs @ holes ys"
  by (simp add: holes_def)

lemma idxs_append [simp]: "idxs (xs @ ys) = idxs xs @ idxs ys"
  by (simp add: idxs_def)

lemma segs_orig:
  "orig (fst (segsOfNode anc raw vis n k)) = (if vis then serializeNode raw n else [])"
  "orig (fst (segsOfList anc raw vis ns k)) = (if vis then serializeChildren raw ns else [])"
proof (induction anc raw vis n k and anc raw vis ns k rule: segsOfNode_segsOfList.induct)
  case (1 anc raw vis name attrs cs n)
  then show ?case
    by (auto simp: outerHTML_def serializeChildren_def split: prod.splits)
next
  case (6 anc raw vis c cs n)
  then show ?case
    by (auto simp: serializeChildren_def split: prod.splits)
qed (simp_all add: serializeChildren_def)

lemma segs_idxs:
  "idxs (fst (segsOfNode anc raw vis n k)) = [k..<snd (segsOfNode anc raw vis n k)]
     \<and> k \<le> snd (segsOfNode anc raw vis n k)"
  "idxs (fst (segsOfList anc raw vis ns k)) = [k..<snd (segsOfList anc raw vis ns k)]
     \<and> k \<le> snd (segsOfList anc raw vis ns k)"
proof (induction anc raw vis n k and anc raw vis ns k rule: segsOfNode_segsOfList.induct)
  case (1 anc raw vis name attrs cs n)
  then show ?case by (auto simp: upt_rec[of n "Suc n"] split: prod.splits)
next
  case (6 anc raw vis c cs n)
  obtain s1 n1 where a: "segsOfNode anc raw vis c n = (s1, n1)" by (cases "segsOfNode anc raw vis c n")
  obtain s2 n2 where b: "segsOfList anc raw vis cs n1 = (s2, n2)"
    by (cases "segsOfList anc raw vis cs n1")
  from "6.IH"(1) a have 1: "idxs s1 = [n..<n1]" "n \<le> n1" by simp_all
  from "6.IH"(2)[OF a[symmetric]] b have 2: "idxs s2 = [n1..<n2]" "n1 \<le> n2" by simp_all
  from 1(2) 2(2) upt_add_eq_append[of n n1 "n2 - n1"] have "[n..<n2] = [n..<n1] @ [n1..<n2]"
    by simp
  with 1 2 have "idxs (s1 @ s2) = [n..<n2]" by simp
  with 1 2 show ?case by (simp add: a b)
qed simp_all

lemma keysBelow_fresh:
  assumes "keysBelow st"
  shows "widgetKey (widgetCounter st) \<notin> fst ` set (widgets st)"
proof
  assume "widgetKey (widgetCounter st) \<in> fst ` set (widgets st)"
  with assms obtain i where "i < widgetCounter st" "widgetKey (widgetCounter st) = widgetKey i"
    by (auto simp: keysBelow_def)
  then show False by (auto dest: widgetKey_inj)
qed

lemma escapeText_plain:
  "CHR ''&'' \<notin> set s \<Longrightarrow> CHR ''<'' \<notin> set s \<Longrightarrow> CHR ''>'' \<notin> set s \<Longrightarrow> CHR 0xA0 \<notin> set s
     \<Longrightarrow> escapeText s = s"
  by (induction s) (auto simp: escapeText_def)

lemma isDigit_plain:
  "isDigit c \<Longrightarrow> c \<noteq> CHR ''&'' \<and> c \<noteq> CHR ''<'' \<and> c \<noteq> CHR ''>'' \<and> c \<noteq> CHR 0xA0"
  by (auto simp: isDigit_def)

lemma escapeText_widgetKey: "escapeText (widgetKey i) = widgetKey i"
proof (rule escapeText_plain)
  have d: "\<forall>c\<in>set (showNat i). isDigit c" using showNat_digits[of i] by (simp add: list_all_iff)
  show "CHR ''&'' \<notin> set (widgetKey i)" "CHR ''<'' \<notin> set (widgetKey i)"
    "CHR ''>'' \<notin> set (widgetKey i)" "CHR 0xA0 \<notin> set (widgetKey i)"
    using d by (auto simp: widgetKey_def dest: isDigit_plain)
qed

lemma serializeNode_token: "serializeNode raw (Text (widgetKey i)) = widgetKey i"
  by (simp add: escapeText_widgetKey)

text \<open>
  What \<open>processElement\<close> does, said with the pieces: the counter it ends with, the widgets
  it adds, and the serialisation of what it leaves behind.
\<close>

lemma process_segs:
  "keysBelow st \<Longrightarrow>
     widgetCounter (snd (processElement anc n st)) = snd (segsOfNode anc raw vis n (widgetCounter st))
     \<and> widgets (snd (processElement anc n st))
         = widgets st @ holes (fst (segsOfNode anc raw vis n (widgetCounter st)))
     \<and> keysBelow (snd (processElement anc n st))
     \<and> modi (fst (segsOfNode anc raw vis n (widgetCounter st)))
         = (if vis then serializeNode raw (fst (processElement anc n st)) else [])"
  "keysBelow st \<Longrightarrow>
     widgetCounter (snd (processChildren anc ns st)) = snd (segsOfList anc raw vis ns (widgetCounter st))
     \<and> widgets (snd (processChildren anc ns st))
         = widgets st @ holes (fst (segsOfList anc raw vis ns (widgetCounter st)))
     \<and> keysBelow (snd (processChildren anc ns st))
     \<and> modi (fst (segsOfList anc raw vis ns (widgetCounter st)))
         = (if vis then serializeChildren raw (fst (processChildren anc ns st)) else [])"
proof (induction anc n st and anc ns st arbitrary: raw vis and raw vis
    rule: processElement_processChildren.induct)
  case (1 anc name attrs cs st)
  show ?case
  proof (cases "toLowerCase name \<in> set WIDGET_ELEMENTS
      \<and> \<not> (toLowerCase name = ''main'' \<and> \<not> isInsideSection anc)")
    case True
    from keysBelow_fresh[OF "1.prems"]
    have u: "AList.update (widgetKey (widgetCounter st)) (outerHTML (Element name attrs cs))
               (widgets st)
             = widgets st @ [(widgetKey (widgetCounter st), outerHTML (Element name attrs cs))]"
      by (rule update_fresh)
    have k: "keysBelow (st\<lparr>widgets := widgets st @
        [(widgetKey (widgetCounter st), outerHTML (Element name attrs cs))],
        widgetCounter := Suc (widgetCounter st)\<rparr>)"
      using "1.prems" by (auto simp: keysBelow_def lessThan_Suc)
    from True u k show ?thesis by (auto simp: escapeText_widgetKey)
  next
    case False
    define raw' where "raw' = (name \<in> set rawTextElements)"
    define vis' where "vis' = (vis \<and> name \<notin> set voidElements)"
    have ih: "widgetCounter (snd (processChildren (name # anc) cs st))
          = snd (segsOfList (name # anc) raw' vis' cs (widgetCounter st))
       \<and> widgets (snd (processChildren (name # anc) cs st))
          = widgets st @ holes (fst (segsOfList (name # anc) raw' vis' cs (widgetCounter st)))
       \<and> keysBelow (snd (processChildren (name # anc) cs st))
       \<and> modi (fst (segsOfList (name # anc) raw' vis' cs (widgetCounter st)))
          = (if vis' then serializeChildren raw' (fst (processChildren (name # anc) cs st)) else [])"
    proof (cases "toLowerCase name \<in> set WIDGET_ELEMENTS")
      case True
      with False have "toLowerCase name = ''main'' \<and> \<not> isInsideSection anc" by simp
      from "1.IH"(1)[OF True this "1.prems"] show ?thesis .
    next
      case False
      from "1.IH"(2)[OF False "1.prems"] show ?thesis .
    qed
    obtain cs' st' where p: "processChildren (name # anc) cs st = (cs', st')"
      by (cases "processChildren (name # anc) cs st")
    obtain inner k' where sg: "segsOfList (name # anc) raw' vis' cs (widgetCounter st) = (inner, k')"
      by (cases "segsOfList (name # anc) raw' vis' cs (widgetCounter st)")
    from False have pe: "processElement anc (Element name attrs cs) st = (Element name attrs cs', st')"
      by (auto simp: p)
    from False have se: "segsOfNode anc raw vis (Element name attrs cs) (widgetCounter st)
        = ((if vis then [Lit (''<'' @ name @ serializeAttrs attrs @ ''>'')] else [])
             @ inner @ (if vis' then [Lit (''</'' @ name @ ''>'')] else []), k')"
      using sg by (auto simp: raw'_def vis'_def)
    from ih show ?thesis
      unfolding pe se p sg
      by (auto simp: vis'_def raw'_def serializeChildren_def)
  qed
next
  case (6 anc c cs st)
  obtain c' st1 where p1: "processElement anc c st = (c', st1)"
    by (cases "processElement anc c st")
  obtain cs' st2 where p2: "processChildren anc cs st1 = (cs', st2)"
    by (cases "processChildren anc cs st1")
  obtain s1 n1 where g1: "segsOfNode anc raw vis c (widgetCounter st) = (s1, n1)"
    by (cases "segsOfNode anc raw vis c (widgetCounter st)")
  from "6.IH"(1)[OF "6.prems", of raw vis] p1 g1
  have a: "widgetCounter st1 = n1" "widgets st1 = widgets st @ holes s1" "keysBelow st1"
    "modi s1 = (if vis then serializeNode raw c' else [])" by simp_all
  obtain s2 n2 where g2: "segsOfList anc raw vis cs n1 = (s2, n2)"
    by (cases "segsOfList anc raw vis cs n1")
  from "6.IH"(2)[OF p1[symmetric] a(3), of raw vis] p2 g2 a(1)
  have b: "widgetCounter st2 = n2" "widgets st2 = widgets st1 @ holes s2" "keysBelow st2"
    "modi s2 = (if vis then serializeChildren raw cs' else [])" by simp_all
  from a b show ?case by (simp add: p1 p2 g1 g2 serializeChildren_def)
qed (simp_all add: serializeChildren_def)

subsection \<open>WidgetExtractor: the round trip\<close>

lemma extractWidgets_segs:
  "resultWidgets (extractWidgets d)
     = holes (fst (segsOfList [''body'', ''html''] False True (bodyChildren d) (Suc 0)))
   \<and> modifiedHtml (extractWidgets d)
     = docBefore d @ modi (fst (segsOfList [''body'', ''html''] False True (bodyChildren d) (Suc 0)))
         @ docAfter d
   \<and> serializeDocument d
     = docBefore d @ orig (fst (segsOfList [''body'', ''html''] False True (bodyChildren d) (Suc 0)))
         @ docAfter d"
proof -
  define st0 where "st0 = \<lparr>widgets = [], widgetCounter = 1\<rparr>"
  have k: "keysBelow st0" by (simp add: keysBelow_def st0_def)
  obtain cs' st where p: "processChildren [''body'', ''html''] (bodyChildren d) st0 = (cs', st)"
    by (cases "processChildren [''body'', ''html''] (bodyChildren d) st0")
  from process_segs(2)[OF k, of "[''body'', ''html'']" "bodyChildren d" False True] p
  have a: "widgets st = holes (fst (segsOfList [''body'', ''html''] False True (bodyChildren d) (Suc 0)))"
    "modi (fst (segsOfList [''body'', ''html''] False True (bodyChildren d) (Suc 0)))
       = serializeChildren False cs'"
    by (simp_all add: st0_def)
  have e: "extractWidgets d =
      \<lparr>resultWidgets = widgets st,
       modifiedHtml = serializeDocument (d\<lparr>bodyChildren := cs'\<rparr>),
       totalWidgets = length (widgets st)\<rparr>"
    using p by (simp add: extractWidgets_def st0_def)
  from segs_orig(2)[of "[''body'', ''html'']" False True "bodyChildren d" "Suc 0"]
  have o: "orig (fst (segsOfList [''body'', ''html''] False True (bodyChildren d) (Suc 0)))
      = serializeChildren False (bodyChildren d)" by simp
  show ?thesis by (simp add: e a o serializeDocument_def)
qed

text \<open>
  Claim C1, as stated, fails.  The text of the page
  \<^verbatim>\<open><body><div>{{widget-1}}</div><p>x</p></body>\<close> already holds the first token.  The
  paragraph is extracted under that token, and putting the fragment back where the token
  stands gives a paragraph inside the \<open>div\<close> as well: not the original, white space or
  not.
\<close>

theorem widgets_round_trip_collision:
  "resultWidgets (extractWidgets collisionDoc) = [(''{{widget-1}}'', ''<p>x</p>'')]
   \<and> modifiedHtml (extractWidgets collisionDoc)
       = ''<html><head></head><body><div>{{widget-1}}</div>{{widget-1}}</body></html>''
   \<and> substituteWidgets (resultWidgets (extractWidgets collisionDoc))
         (modifiedHtml (extractWidgets collisionDoc))
       = ''<html><head></head><body><div><p>x</p></div><p>x</p></body></html>''
   \<and> serializeDocument collisionDoc
       = ''<html><head></head><body><div>{{widget-1}}</div><p>x</p></body></html>''
   \<and> stripWhitespace (substituteWidgets (resultWidgets (extractWidgets collisionDoc))
         (modifiedHtml (extractWidgets collisionDoc)))
       \<noteq> stripWhitespace (serializeDocument collisionDoc)"
  by code_simp

text \<open>
  Claim C1, amended.  For every document whose serialisation does not contain the string
  \<open>{{widget-\<close>, so that no token can collide with text already there, substituting every
  token that \<open>extractWidgets\<close> emitted by its captured fragment, in the order of
  extraction, in the \<open>modifiedHtml\<close> it returned gives back the serialisation of the
  document before extraction, character for character.
\<close>

theorem widgets_round_trip:
  assumes "tokenFree (serializeDocument d)"
  shows "substituteWidgets (resultWidgets (extractWidgets d)) (modifiedHtml (extractWidgets d))
           = serializeDocument d"
proof -
  define segs where "segs = fst (segsOfList [''body'', ''html''] False True (bodyChildren d) (Suc 0))"
  from extractWidgets_segs[of d] have
    w: "resultWidgets (extractWidgets d) = holes segs" and
    m: "modifiedHtml (extractWidgets d) = docBefore d @ modi segs @ docAfter d" and
    o: "serializeDocument d = docBefore d @ orig segs @ docAfter d"
    by (simp_all add: segs_def)
  from segs_idxs(2)[of "[''body'', ''html'']" False True "bodyChildren d" "Suc 0"]
  have "distinct (idxs segs)" by (simp add: segs_def)
  moreover from assms have "tokenFree (docBefore d @ orig segs @ docAfter d)" by (simp add: o)
  ultimately show ?thesis unfolding w m o by (rule substitute_back[rotated])
qed

theorem widgets_round_trip_witness:
  "tokenFree (serializeDocument plainDoc)
   \<and> resultWidgets (extractWidgets plainDoc)
       = [(''{{widget-1}}'', ''<p>x</p>''), (''{{widget-2}}'', ''<span>z</span>'')]
   \<and> modifiedHtml (extractWidgets plainDoc)
       = ''<html><head></head><body><div>{{widget-1}}{{y}}</div>{{widget-2}}</body></html>''
   \<and> substituteWidgets (resultWidgets (extractWidgets plainDoc))
         (modifiedHtml (extractWidgets plainDoc))
       = serializeDocument plainDoc"
proof -
  have a: "tokenFree (serializeDocument plainDoc)" by code_simp
  have b: "resultWidgets (extractWidgets plainDoc)
       = [(''{{widget-1}}'', ''<p>x</p>''), (''{{widget-2}}'', ''<span>z</span>'')]"
    by code_simp
  have c: "modifiedHtml (extractWidgets plainDoc)
       = ''<html><head></head><body><div>{{widget-1}}{{y}}</div>{{widget-2}}</body></html>''"
    by code_simp
  from widgets_round_trip[OF a] a b c show ?thesis by blast
qed

end
